theory Spec2Isabelle
  imports Complex_Main "HOL-Library.Sublist" "HOL-Library.Product_Lexorder" "HOL-Library.AList"
begin

section \<open>Python strings\<close>

text \<open>
  A Python \<open>str\<close> is modelled as a \<open>string\<close>, one \<open>char\<close> per code point; the model
  covers the code points 0 to 255, and \<open>length\<close> is Python's \<open>len\<close>.
  The character classes below are the ones Python applies to these code points.
\<close>

definition code_point :: "char \<Rightarrow> nat" where
  "code_point c = of_char c"

definition isspace :: "char \<Rightarrow> bool" where
  \<comment> \<open>the characters removed by \<open>str.strip()\<close>\<close>
  "isspace c = (let n = code_point c in
     (9 \<le> n \<and> n \<le> 13) \<or> (28 \<le> n \<and> n \<le> 32) \<or> n = 133 \<or> n = 160)"

definition strip :: "string \<Rightarrow> string" where
  "strip s = rev (dropWhile isspace (rev (dropWhile isspace s)))"

definition adjust_index :: "nat \<Rightarrow> int \<Rightarrow> nat" where
  \<comment> \<open>how Python clips a slice bound: a negative bound counts from the end\<close>
  "adjust_index n i = (if i < 0 then nat (max (i + int n) 0) else min (nat i) n)"

definition slice :: "string \<Rightarrow> int \<Rightarrow> int \<Rightarrow> string" where
  \<comment> \<open>\<open>s[a:b]\<close>\<close>
  "slice s a b = (let lo = adjust_index (length s) a; hi = adjust_index (length s) b
                  in take (hi - lo) (drop lo s))"

definition rfind :: "string \<Rightarrow> char \<Rightarrow> int \<Rightarrow> int \<Rightarrow> int" where
  \<comment> \<open>\<open>s.rfind(c, a, b)\<close>: the highest index in \<open>s[a:b]\<close> holding \<open>c\<close>, or -1\<close>
  "rfind s c a b = (let lo = adjust_index (length s) a; hi = adjust_index (length s) b;
                        hits = filter (\<lambda>i. s ! i = c) [lo..<hi]
                    in if hits = [] then - 1 else int (last hits))"

definition lower_char :: "char \<Rightarrow> char" where
  "lower_char c = (let n = code_point c in
     if (65 \<le> n \<and> n \<le> 90) \<or> (192 \<le> n \<and> n \<le> 222 \<and> n \<noteq> 215) then char_of (n + 32) else c)"

definition lower :: "string \<Rightarrow> string" where
  \<comment> \<open>\<open>str.lower()\<close>\<close>
  "lower s = map lower_char s"

definition upper_char :: "char \<Rightarrow> char" where
  "upper_char c = (let n = code_point c in
     if 97 \<le> n \<and> n \<le> 122 then char_of (n - 32) else c)"

definition upper :: "string \<Rightarrow> string" where
  \<comment> \<open>\<open>str.upper()\<close> on ASCII text; the code applies it to the fixed keywords only\<close>
  "upper s = map upper_char s"

definition isword :: "char \<Rightarrow> bool" where
  \<comment> \<open>the characters matched by the regular expression \<open>\w\<close>\<close>
  "isword c = (let n = code_point c in
     (48 \<le> n \<and> n \<le> 57) \<or> (65 \<le> n \<and> n \<le> 90) \<or> n = 95 \<or> (97 \<le> n \<and> n \<le> 122) \<or>
     n = 170 \<or> n = 178 \<or> n = 179 \<or> n = 181 \<or> n = 185 \<or> n = 186 \<or>
     (188 \<le> n \<and> n \<le> 190) \<or> (192 \<le> n \<and> n \<le> 214) \<or> (216 \<le> n \<and> n \<le> 246) \<or>
     248 \<le> n)"

fun replace :: "string \<Rightarrow> string \<Rightarrow> string \<Rightarrow> string" where
  \<comment> \<open>\<open>s.replace(old, new)\<close>: every occurrence, left to right, without overlap\<close>
  "replace s [] new = new @ concat (map (\<lambda>c. c # new) s)"
| "replace [] (k # ks) new = []"
| "replace (c # cs) (k # ks) new =
     (if prefix (k # ks) (c # cs) then new @ replace (drop (length ks) cs) (k # ks) new
      else c # replace cs (k # ks) new)"

section \<open>Errors and dictionaries\<close>

datatype py_error =
    ValueError string
  | IndexError
  | KeyError
  | ZeroDivisionError
  | RuntimeError string
  | FileNotFoundError

text \<open>
  A \<open>dict\<close> is an association list with distinct keys, in insertion order:
  \<open>map_of\<close> looks a key up and \<open>AList.update\<close> stores a value.
\<close>

definition dict_get :: "('k \<times> 'v) list \<Rightarrow> 'k \<Rightarrow> 'v \<Rightarrow> 'v" where
  \<comment> \<open>\<open>d.get(k, default)\<close>\<close>
  "dict_get d k dflt = (case map_of d k of None \<Rightarrow> dflt | Some v \<Rightarrow> v)"

definition set_to_list :: "'a list \<Rightarrow> 'a list" where
  \<comment> \<open>the elements of \<open>set(xs)\<close> as Python iterates them; Python leaves the order open,
      the model takes the order of first occurrence\<close>
  "set_to_list xs = rev (remdups (rev xs))"

definition py_div :: "real \<Rightarrow> real \<Rightarrow> py_error + real" where
  "py_div a b = (if b = 0 then Inl ZeroDivisionError else Inr (a / b))"

definition py_log :: "real \<Rightarrow> py_error + real" where
  \<comment> \<open>\<open>math.log\<close>\<close>
  "py_log x = (if x \<le> 0 then Inl (ValueError ''math domain error'') else Inr (ln x))"

fun map_result :: "('a \<Rightarrow> 'e + 'b) \<Rightarrow> 'a list \<Rightarrow> 'e + 'b list" where
  "map_result f [] = Inr []"
| "map_result f (x # xs) =
     (case f x of Inl e \<Rightarrow> Inl e
      | Inr y \<Rightarrow> (case map_result f xs of Inl e \<Rightarrow> Inl e | Inr ys \<Rightarrow> Inr (y # ys)))"

fun fold_result :: "('a \<Rightarrow> 's \<Rightarrow> 'e + 's) \<Rightarrow> 'a list \<Rightarrow> 's \<Rightarrow> 'e + 's" where
  "fold_result f [] s = Inr s"
| "fold_result f (x # xs) s =
     (case f x s of Inl e \<Rightarrow> Inl e | Inr s' \<Rightarrow> fold_result f xs s')"

section \<open>DocumentProcessor.chunk\_text\<close>

definition window_end :: "string \<Rightarrow> int \<Rightarrow> int \<Rightarrow> int" where
  \<comment> \<open>the value of \<open>end\<close> after the search for a sentence boundary\<close>
  "window_end text chunk_size start =
     (let end0 = start + chunk_size in
      if end0 < int (length text) then
        (let last_period = rfind text (CHR ''.'') start end0;
             last_question = rfind text (CHR ''?'') start end0;
             last_exclamation = rfind text (CHR ''!'') start end0;
             best_break = max (max last_period last_question) last_exclamation
         in if best_break > start then best_break + 1 else end0)
      else end0)"

definition next_start :: "int \<Rightarrow> int \<Rightarrow> int \<Rightarrow> int" where
  "next_start start end1 overlap = (if end1 - overlap \<le> start then end1 else end1 - overlap)"

definition append_chunk :: "string list \<Rightarrow> string \<Rightarrow> string list" where
  \<comment> \<open>\<open>if chunk: chunks.append(chunk)\<close>\<close>
  "append_chunk chunks chunk = (if chunk \<noteq> [] then chunks @ [chunk] else chunks)"

text \<open>The \<open>while\<close> loop; \<open>None\<close> is a loop that never exits.\<close>

partial_function (option) chunk_loop ::
  "string \<Rightarrow> int \<Rightarrow> int \<Rightarrow> int \<Rightarrow> string list \<Rightarrow> string list option" where
  "chunk_loop text chunk_size overlap start chunks =
     (if start < int (length text) then
        (let end1 = window_end text chunk_size start;
             chunk = strip (slice text start end1)
         in chunk_loop text chunk_size overlap (next_start start end1 overlap)
              (append_chunk chunks chunk))
      else Some chunks)"

definition chunk_text :: "string \<Rightarrow> int \<Rightarrow> int \<Rightarrow> string list option" where
  "chunk_text text chunk_size overlap =
     (if int (length text) \<le> chunk_size then Some [text]
      else chunk_loop text chunk_size overlap 0 [])"

definition trimmed_chunks :: "string list \<Rightarrow> bool" where
  \<comment> \<open>every chunk is non-empty and has no white space at either end\<close>
  "trimmed_chunks chunks = list_all (\<lambda>c. c \<noteq> [] \<and> strip c = c) chunks"

section \<open>RoleFilter\<close>

record permissions =
  all_documents :: bool
  sensitive_info :: bool

text \<open>
  A chunk dictionary as \<open>process_documents\<close> builds it. The key \<open>text\<close> is the field
  \<open>doc_text\<close>; \<open>source\<close> is optional because the filter reads it with \<open>get\<close>.
  A search result is a copy of a chunk with the key \<open>similarity\<close> added.
\<close>

record document =
  doc_text :: string
  source :: "string option"
  chunk_id :: nat
  file_path :: string

record search_result = document +
  similarity :: real

definition role_permissions :: "(string \<times> permissions) list" where
  "role_permissions =
     [(''admin'', \<lparr>all_documents = True, sensitive_info = True\<rparr>),
      (''manager'', \<lparr>all_documents = True, sensitive_info = False\<rparr>),
      (''employee'', \<lparr>all_documents = False, sensitive_info = False\<rparr>),
      (''public'', \<lparr>all_documents = False, sensitive_info = False\<rparr>)]"

definition document_restrictions :: "(string \<times> string list) list" where
  "document_restrictions =
     [(''cybersecurity.txt'', [''admin'', ''manager'']),
      (''cloud_devops.txt'', [''admin'', ''manager'', ''employee''])]"

definition sensitive_keywords :: "string list" where
  "sensitive_keywords =
     [''security'', ''password'', ''encryption'', ''vulnerability'',
      ''attack'', ''penetration'', ''firewall'', ''intrusion'']"

definition effective_role :: "string \<Rightarrow> string" where
  \<comment> \<open>\<open>if user_role not in self.role_permissions: user_role = 'public'\<close>\<close>
  "effective_role user_role =
     (if map_of role_permissions user_role = None then ''public'' else user_role)"

definition allowed_roles :: "'a document_scheme \<Rightarrow> string list" where
  "allowed_roles doc =
     (let src = (case source doc of None \<Rightarrow> [] | Some s \<Rightarrow> s)
      in dict_get document_restrictions src [''admin'', ''manager'', ''employee'', ''public''])"

definition filter_documents ::
  "'a document_scheme list \<Rightarrow> string \<Rightarrow> py_error + 'a document_scheme list" where
  "filter_documents documents user_role0 =
     (let user_role = effective_role user_role0 in
      case map_of role_permissions user_role of
        None \<Rightarrow> Inl KeyError
      | Some perms \<Rightarrow>
          if all_documents perms then Inr documents
          else Inr (fold (\<lambda>doc filtered_docs.
                      if user_role \<in> set (allowed_roles doc) then filtered_docs @ [doc]
                      else filtered_docs) documents []))"

definition restriction_marker :: "string \<Rightarrow> string" where
  "restriction_marker keyword = ''['' @ upper keyword @ ''_INFO_RESTRICTED]''"

definition redact_keyword :: "string \<Rightarrow> string \<Rightarrow> string" where
  \<comment> \<open>one round of the loop over the keywords\<close>
  "redact_keyword keyword filtered_response =
     (if sublist (lower keyword) (lower filtered_response)
      then replace filtered_response keyword (restriction_marker keyword)
      else filtered_response)"

definition disclaimer :: string where
  "disclaimer = [CHR 0x0A, CHR 0x0A] @
     ''[Note: Some sensitive information has been filtered based on your access level.]''"

definition filter_response :: "string \<Rightarrow> string \<Rightarrow> py_error + string" where
  "filter_response response user_role0 =
     (let user_role = effective_role user_role0 in
      case map_of role_permissions user_role of
        None \<Rightarrow> Inl KeyError
      | Some perms \<Rightarrow>
          if sensitive_info perms then Inr response
          else (let filtered_response = fold redact_keyword sensitive_keywords response
                in if filtered_response \<noteq> response then Inr (filtered_response @ disclaimer)
                   else Inr filtered_response))"

definition overlap_free :: "string \<Rightarrow> string \<Rightarrow> bool" where
  \<comment> \<open>no occurrence of \<open>a\<close> can run into an occurrence of \<open>b\<close>: no non-empty end of
      \<open>a\<close> begins \<open>b\<close> or begins with \<open>b\<close>\<close>
  "overlap_free a b = list_all (\<lambda>u. u = [] \<or> (\<not> prefix u b \<and> \<not> prefix b u)) (suffixes a)"

definition lowercase_letter :: "char \<Rightarrow> bool" where
  "lowercase_letter c = (97 \<le> code_point c \<and> code_point c \<le> 122)"

definition role_sensitive_info :: "string \<Rightarrow> bool" where
  \<comment> \<open>\<open>self.role_permissions[user_role]['sensitive_info']\<close> for the role after the
      replacement of an unknown role\<close>
  "role_sensitive_info role =
     (case map_of role_permissions (effective_role role) of
        None \<Rightarrow> False | Some perms \<Rightarrow> sensitive_info perms)"

text \<open>
  The redaction in the specification's words: for each sensitive term, the literal
  occurrences of the term are replaced by the marker derived from the term.
\<close>

definition redact_all :: "string \<Rightarrow> string" where
  "redact_all t = fold (\<lambda>keyword s. replace s keyword (restriction_marker keyword))
                    sensitive_keywords t"

definition plainly_spelled :: "string \<Rightarrow> bool" where
  \<comment> \<open>wherever a sensitive term occurs in the text in some casing, the text holds the
      term as the keyword list spells it\<close>
  "plainly_spelled t =
     list_all (\<lambda>keyword.
       list_all (\<lambda>i. prefix keyword (drop i (lower t)) \<longrightarrow> prefix keyword (drop i t))
         [0..<length t]) sensitive_keywords"

section \<open>SimpleEmbeddings\<close>

text \<open>
  Python floats are modelled as real numbers: rounding, overflow and NaN are outside
  the model. Division and logarithm keep their error cases.
\<close>

record SimpleEmbeddings =
  vocabulary :: "(string \<times> nat) list"
  idf_scores :: "(string \<times> real) list"
  fitted :: bool

definition SimpleEmbeddings_init :: SimpleEmbeddings where
  "SimpleEmbeddings_init = \<lparr>vocabulary = [], idf_scores = [], fitted = False\<rparr>"

fun findall_words :: "string \<Rightarrow> string \<Rightarrow> string list" where
  \<comment> \<open>\<open>re.findall(r'\b\w+\b', s)\<close>: the maximal runs of word characters;
      the first argument is the run being read\<close>
  "findall_words cur [] = (if cur = [] then [] else [cur])"
| "findall_words cur (c # cs) =
     (if isword c then findall_words (cur @ [c]) cs
      else (if cur = [] then [] else [cur]) @ findall_words [] cs)"

definition tokenize :: "string \<Rightarrow> string list" where
  "tokenize text = findall_words [] (lower text)"

definition Counter :: "'a list \<Rightarrow> ('a \<times> nat) list" where
  "Counter xs = fold (\<lambda>x d. AList.update x (dict_get d x 0 + 1) d) xs []"

definition compute_tf :: "string list \<Rightarrow> py_error + (string \<times> real) list" where
  "compute_tf tokens =
     (let total_tokens = length tokens;
          token_counts = Counter tokens
      in map_result (\<lambda>(token, count).
           case py_div (real count) (real total_tokens) of
             Inl e \<Rightarrow> Inl e
           | Inr q \<Rightarrow> Inr (token, q)) token_counts)"

definition count_document :: "string \<Rightarrow> (string \<times> nat) list \<Rightarrow> (string \<times> nat) list" where
  \<comment> \<open>the body of the loop over the documents in \<open>_compute_idf\<close>\<close>
  "count_document doc word_doc_count =
     (let tokens = tokenize doc;
          unique_tokens = set_to_list tokens
      in fold (\<lambda>token d. AList.update token (dict_get d token 0 + 1) d)
           unique_tokens word_doc_count)"

definition compute_idf :: "string list \<Rightarrow> py_error + (string \<times> real) list" where
  "compute_idf documents =
     (let doc_count = length documents;
          word_doc_count = fold count_document documents []
      in map_result (\<lambda>(word, count).
           case py_div (real doc_count) (real count) of
             Inl e \<Rightarrow> Inl e
           | Inr q \<Rightarrow> (case py_log q of Inl e \<Rightarrow> Inl e | Inr l \<Rightarrow> Inr (word, l)))
           word_doc_count)"

definition fit :: "SimpleEmbeddings \<Rightarrow> string list \<Rightarrow> py_error + SimpleEmbeddings" where
  "fit self documents =
     (let all_tokens = concat (map tokenize documents);
          unique_tokens = set_to_list all_tokens;
          vocab = zip unique_tokens [0..<length unique_tokens]
      in case compute_idf documents of
           Inl e \<Rightarrow> Inl e
         | Inr idf \<Rightarrow> Inr (self\<lparr>vocabulary := vocab, idf_scores := idf, fitted := True\<rparr>))"

definition list_assign :: "'a list \<Rightarrow> nat \<Rightarrow> 'a \<Rightarrow> py_error + 'a list" where
  \<comment> \<open>\<open>xs[i] = v\<close>\<close>
  "list_assign xs i v = (if i < length xs then Inr (xs[i := v]) else Inl IndexError)"

definition transform :: "SimpleEmbeddings \<Rightarrow> string \<Rightarrow> py_error + real list" where
  "transform self text =
     (if \<not> fitted self then Inl (ValueError ''Model must be fitted before transforming'')
      else
        (let tokens = tokenize text in
         case compute_tf tokens of
           Inl e \<Rightarrow> Inl e
         | Inr tf_scores \<Rightarrow>
             fold_result (\<lambda>(token, tf) vector.
                 case map_of (vocabulary self) token of
                   None \<Rightarrow> Inr vector
                 | Some idx \<Rightarrow>
                     (let idf = dict_get (idf_scores self) token 0
                      in list_assign vector idx (tf * idf)))
               tf_scores (replicate (length (vocabulary self)) 0)))"

definition fit_transform ::
  "SimpleEmbeddings \<Rightarrow> string list \<Rightarrow> py_error + SimpleEmbeddings \<times> real list list" where
  "fit_transform self documents =
     (case fit self documents of
        Inl e \<Rightarrow> Inl e
      | Inr self' \<Rightarrow>
          (case map_result (transform self') documents of
             Inl e \<Rightarrow> Inl e
           | Inr vectors \<Rightarrow> Inr (self', vectors)))"

section \<open>VectorStore\<close>

record VectorStore =
  vectors :: "real list list"
  metadata :: "document list"
  embeddings_model :: SimpleEmbeddings

definition VectorStore_init :: VectorStore where
  "VectorStore_init = \<lparr>vectors = [], metadata = [], embeddings_model = SimpleEmbeddings_init\<rparr>"

definition add_documents :: "VectorStore \<Rightarrow> document list \<Rightarrow> py_error + VectorStore" where
  "add_documents self documents =
     (let texts = map doc_text documents in
      case fit_transform (embeddings_model self) texts of
        Inl e \<Rightarrow> Inl e
      | Inr (model, new_vectors) \<Rightarrow>
          Inr (self\<lparr>vectors := vectors self @ new_vectors,
                    metadata := metadata self @ documents,
                    embeddings_model := model\<rparr>))"

definition cosine_similarity :: "real list \<Rightarrow> real list \<Rightarrow> py_error + real" where
  "cosine_similarity vec1 vec2 =
     (let dot_product = sum_list (map (\<lambda>(a, b). a * b) (zip vec1 vec2));
          magnitude1 = sqrt (sum_list (map (\<lambda>a. a * a) vec1));
          magnitude2 = sqrt (sum_list (map (\<lambda>a. a * a) vec2))
      in if magnitude1 = 0 \<or> magnitude2 = 0 then Inr 0
         else py_div dot_product (magnitude1 * magnitude2))"

definition sort_reverse :: "('a::linorder) list \<Rightarrow> 'a list" where
  \<comment> \<open>\<open>xs.sort(reverse=True)\<close>: Python reverses the list, sorts it stably in ascending
      order and reverses it again\<close>
  "sort_reverse xs = rev (sort (rev xs))"

definition list_prefix :: "'a list \<Rightarrow> int \<Rightarrow> 'a list" where
  \<comment> \<open>\<open>xs[:k]\<close>\<close>
  "list_prefix xs k = take (adjust_index (length xs) k) xs"

definition list_get :: "'a list \<Rightarrow> nat \<Rightarrow> py_error + 'a" where
  \<comment> \<open>\<open>xs[i]\<close> for an index that is not negative\<close>
  "list_get xs i = (if i < length xs then Inr (xs ! i) else Inl IndexError)"

definition ranked_similarities ::
  "VectorStore \<Rightarrow> real list \<Rightarrow> py_error + (real \<times> nat) list" where
  \<comment> \<open>the list \<open>similarities\<close> after \<open>similarities.sort(reverse=True)\<close>; pairs are
      compared as Python compares tuples, first component first\<close>
  "ranked_similarities self query_vector =
     (case map_result (\<lambda>(i, doc_vector).
             case cosine_similarity query_vector doc_vector of
               Inl e \<Rightarrow> Inl e
             | Inr sim \<Rightarrow> Inr (sim, i))
           (zip [0..<length (vectors self)] (vectors self)) of
        Inl e \<Rightarrow> Inl e
      | Inr similarities \<Rightarrow> Inr (sort_reverse similarities))"

definition scored :: "document \<Rightarrow> real \<Rightarrow> search_result" where
  \<comment> \<open>\<open>result = doc.copy(); result['similarity'] = sim\<close>\<close>
  "scored doc sim = \<lparr>doc_text = doc_text doc, source = source doc, chunk_id = chunk_id doc,
                      file_path = file_path doc, similarity = sim\<rparr>"

definition make_result :: "VectorStore \<Rightarrow> real \<times> nat \<Rightarrow> py_error + search_result" where
  \<comment> \<open>the body of the loop over \<open>similarities[:k]\<close>\<close>
  "make_result self p =
     (case list_get (metadata self) (snd p) of
        Inl e \<Rightarrow> Inl e
      | Inr doc \<Rightarrow> Inr (scored doc (fst p)))"

definition similarity_search ::
  "VectorStore \<Rightarrow> string \<Rightarrow> int \<Rightarrow> py_error + search_result list" where
  "similarity_search self query k =
     (if vectors self = [] then Inr []
      else case transform (embeddings_model self) query of
             Inl e \<Rightarrow> Inl e
           | Inr query_vector \<Rightarrow>
               (case ranked_similarities self query_vector of
                  Inl e \<Rightarrow> Inl e
                | Inr similarities \<Rightarrow> map_result (make_result self) (list_prefix similarities k)))"

text \<open>
  The file system is a map from paths to the pickled dictionary that \<open>save\<close> wrote;
  \<open>pickle.load\<close> gives back the dictionary that \<open>pickle.dump\<close> was given.
  A file that holds anything else is outside the model.
\<close>

record model_data =
  data_vocabulary :: "(string \<times> nat) list"
  data_idf_scores :: "(string \<times> real) list"
  data_fitted :: bool

record store_data =
  data_vectors :: "real list list"
  data_metadata :: "document list"
  data_embeddings_model :: model_data

type_synonym file_system = "string \<rightharpoonup> store_data"

definition save :: "VectorStore \<Rightarrow> string \<Rightarrow> file_system \<Rightarrow> file_system" where
  "save self filepath fs =
     (let data = \<lparr>data_vectors = vectors self,
                  data_metadata = metadata self,
                  data_embeddings_model =
                    \<lparr>data_vocabulary = vocabulary (embeddings_model self),
                     data_idf_scores = idf_scores (embeddings_model self),
                     data_fitted = fitted (embeddings_model self)\<rparr>\<rparr>
      in fs(filepath \<mapsto> data))"

definition load :: "VectorStore \<Rightarrow> string \<Rightarrow> file_system \<Rightarrow> py_error + VectorStore" where
  "load self filepath fs =
     (case fs filepath of
        None \<Rightarrow> Inl FileNotFoundError
      | Some data \<Rightarrow>
          (let model_data = data_embeddings_model data
           in Inr (self\<lparr>vectors := data_vectors data,
                        metadata := data_metadata data,
                        embeddings_model := (embeddings_model self)
                          \<lparr>vocabulary := data_vocabulary model_data,
                           idf_scores := data_idf_scores model_data,
                           fitted := data_fitted model_data\<rparr>\<rparr>)))"

inductive built :: "VectorStore \<Rightarrow> bool" where
  \<comment> \<open>the stores that a sequence of \<open>add_documents\<close> calls makes from a new store\<close>
  built_init: "built VectorStore_init"
| built_add: "built self \<Longrightarrow> add_documents self documents = Inr self' \<Longrightarrow> built self'"

definition vocabulary_in_range :: "SimpleEmbeddings \<Rightarrow> bool" where
  \<comment> \<open>every column index of the vocabulary is a position of a vector of its length\<close>
  "vocabulary_in_range model =
     list_all (\<lambda>(token, idx). idx < length (vocabulary model)) (vocabulary model)"

definition store_ok :: "VectorStore \<Rightarrow> bool" where
  \<comment> \<open>what \<open>similarity_search\<close> relies on: one chunk per vector, and a fitted model with a
      well-formed vocabulary\<close>
  "store_ok self =
     (length (metadata self) = length (vectors self) \<and>
      (vectors self = [] \<or> fitted (embeddings_model self)) \<and>
      vocabulary_in_range (embeddings_model self))"

text \<open>Three chunks and the store built from the first two, for concrete runs.\<close>

definition chunk0 :: document where
  "chunk0 = \<lparr>doc_text = ''alpha'', source = Some ''cybersecurity.txt'', chunk_id = 0,
              file_path = ''documents/cybersecurity.txt''\<rparr>"

definition chunk1 :: document where
  "chunk1 = \<lparr>doc_text = ''beta'', source = Some ''cybersecurity.txt'', chunk_id = 1,
              file_path = ''documents/cybersecurity.txt''\<rparr>"

definition chunk2 :: document where
  "chunk2 = \<lparr>doc_text = ''gamma delta'', source = Some ''notes.txt'', chunk_id = 0,
              file_path = ''documents/notes.txt''\<rparr>"

definition two_chunk_store :: VectorStore where
  "two_chunk_store =
     (case add_documents VectorStore_init [chunk0, chunk1] of
        Inr self \<Rightarrow> self | Inl e \<Rightarrow> VectorStore_init)"

section \<open>AIQuerySystem.query\<close>

text \<open>
  The answer generator is a collaborator: a function from the question and the context
  chunks to its answer, which may fail. Every call to it is appended to a call log, so
  that "the collaborator was not invoked" is a statement about the log. The clock is the
  argument \<open>now\<close>; the progress messages that \<open>query\<close> prints are left out.
\<close>

record llm_response =
  llm_response_text :: string
  llm_sources :: "string list"
  llm_model :: string
  llm_context_used :: nat

type_synonym llm_call = "string \<times> search_result list"

record AIQuerySystem =
  vector_store :: VectorStore
  llm_manager :: "string \<Rightarrow> search_result list \<Rightarrow> py_error + llm_response"
  initialized :: bool

record query_result =
  query_text :: string
  response :: string
  sources :: "string list"
  timestamp :: string
  context_chunks :: nat
  user_role :: string
  model_used :: "string option"
  similarity_scores :: "real list option"
  filtered :: "bool option"

definition no_access_message :: string where
  "no_access_message =
     ''I couldn't find any relevant information in the documents accessible to your role.''"

definition query ::
  "AIQuerySystem \<Rightarrow> string \<Rightarrow> llm_call list \<Rightarrow> string \<Rightarrow> int \<Rightarrow> string
     \<Rightarrow> (py_error + query_result) \<times> llm_call list" where
  "query self now calls question top_k role =
     (if \<not> initialized self
      then (Inl (RuntimeError ''System not initialized. Call initialize() first.''), calls)
      else
        case similarity_search (vector_store self) question top_k of
          Inl e \<Rightarrow> (Inl e, calls)
        | Inr found \<Rightarrow>
            (case filter_documents found role of
               Inl e \<Rightarrow> (Inl e, calls)
             | Inr chunks \<Rightarrow>
                 if chunks = [] then
                   (Inr \<lparr>query_text = question, response = no_access_message, sources = [],
                         timestamp = now, context_chunks = 0, user_role = role,
                         model_used = None, similarity_scores = None, filtered = None\<rparr>,
                    calls)
                 else
                   (let calls' = calls @ [(question, chunks)] in
                    case llm_manager self question chunks of
                      Inl e \<Rightarrow> (Inl e, calls')
                    | Inr answer \<Rightarrow>
                        (case filter_response (llm_response_text answer) role of
                           Inl e \<Rightarrow> (Inl e, calls')
                         | Inr filtered_response \<Rightarrow>
                             (Inr \<lparr>query_text = question, response = filtered_response,
                                   sources = llm_sources answer, timestamp = now,
                                   context_chunks = llm_context_used answer, user_role = role,
                                   model_used = Some (llm_model answer),
                                   similarity_scores = Some (map similarity chunks),
                                   filtered =
                                     Some (filtered_response \<noteq> llm_response_text answer)\<rparr>,
                              calls')))))"

text \<open>An answer generator for concrete runs.\<close>

definition stub_llm :: "string \<Rightarrow> search_result list \<Rightarrow> py_error + llm_response" where
  "stub_llm question chunks =
     Inr \<lparr>llm_response_text = question, llm_sources = [], llm_model = ''system-fallback'',
          llm_context_used = length chunks\<rparr>"

section \<open>Properties of string replacement\<close>

lemma overlap_freeD:
  "overlap_free a b \<Longrightarrow> suffix u a \<Longrightarrow> u \<noteq> [] \<Longrightarrow> \<not> prefix u b \<and> \<not> prefix b u"
  by (auto simp: overlap_free_def list_all_iff in_set_suffixes)

lemma replace_Nil: "K \<noteq> [] \<Longrightarrow> replace [] K m = []"
  by (cases K) auto

lemma replace_hit:
  "K \<noteq> [] \<Longrightarrow> prefix K s \<Longrightarrow> replace s K m = m @ replace (drop (length K) s) K m"
  by (cases K; cases s) auto

lemma replace_miss:
  "K \<noteq> [] \<Longrightarrow> \<not> prefix K (c # cs) \<Longrightarrow> replace (c # cs) K m = c # replace cs K m"
  by (cases K) auto

lemma replace_absent: "K \<noteq> [] \<Longrightarrow> \<not> sublist K s \<Longrightarrow> replace s K m = s"
proof (induction s)
  case Nil
  then show ?case by (simp add: replace_Nil)
next
  case (Cons c cs)
  then have "\<not> prefix K (c # cs)" and "\<not> sublist K cs"
    by (auto simp: sublist_Cons_right)
  with Cons show ?case by (simp add: replace_miss)
qed

text \<open>Replacing leaves the new string wherever the old one occurred.\<close>

lemma replace_inserts: "K \<noteq> [] \<Longrightarrow> sublist K s \<Longrightarrow> sublist m (replace s K m)"
proof (induction s)
  case Nil
  then show ?case by simp
next
  case (Cons c cs)
  show ?case
  proof (cases "prefix K (c # cs)")
    case True
    then show ?thesis using Cons.prems(1) by (simp add: replace_hit)
  next
    case False
    with Cons.prems have "sublist K cs" by (simp add: sublist_Cons_right)
    with Cons have "sublist m (replace cs K m)" by blast
    then show ?thesis using False Cons.prems(1) by (simp add: replace_miss sublist_Cons_right)
  qed
qed

lemma sublist_append_disjoint:
  assumes "sublist j (m @ r)" "set j \<inter> set m = {}" "j \<noteq> []"
  shows "sublist j r"
proof -
  from assms(1) consider "sublist j m" | "sublist j r"
    | xs1 xs2 where "j = xs1 @ xs2" "suffix xs1 m" "prefix xs2 r"
    by (auto simp: sublist_append)
  then show ?thesis
  proof cases
    case 1
    then have "set j \<subseteq> set m" by (rule set_mono_sublist)
    with assms(2,3) show ?thesis by (cases j) auto
  next
    case 2
    then show ?thesis .
  next
    case 3
    from 3(2) have "set xs1 \<subseteq> set m" by (rule set_mono_suffix)
    with assms(2) 3(1) have "xs1 = []" by (cases xs1) auto
    with 3 show ?thesis by simp
  qed
qed

lemma prefix_append_disjoint:
  assumes "prefix j (m @ r)" "set j \<inter> set m = {}" "m \<noteq> []"
  shows "j = []"
proof (rule ccontr)
  assume "j \<noteq> []"
  then obtain a j' where j: "j = a # j'" by (cases j) auto
  from assms(3) obtain b m' where m: "m = b # m'" by (cases m) auto
  from assms(1) j m have "a = b" by simp
  with assms(2) j m show False by simp
qed

lemma replace_prefix_back:
  "K \<noteq> [] \<Longrightarrow> prefix j (replace s K m) \<Longrightarrow> set j \<inter> set m = {} \<Longrightarrow> m \<noteq> [] \<Longrightarrow> prefix j s"
proof (induction s arbitrary: j rule: length_induct)
  case (1 s)
  show ?case
  proof (cases s)
    case Nil
    with 1 show ?thesis by (simp add: replace_Nil)
  next
    case (Cons c cs)
    show ?thesis
    proof (cases "prefix K (c # cs)")
      case True
      with "1.prems" Cons have "prefix j (m @ replace (drop (length K) s) K m)"
        by (simp add: replace_hit)
      then have "j = []" using "1.prems"(3,4) by (rule prefix_append_disjoint)
      then show ?thesis by simp
    next
      case False
      with "1.prems" Cons have p: "prefix j (c # replace cs K m)" by (simp add: replace_miss)
      show ?thesis
      proof (cases j)
        case Nil
        then show ?thesis by simp
      next
        case (Cons a j')
        with p have a: "a = c" and p': "prefix j' (replace cs K m)" by auto
        from "1.prems"(3) Cons have "set j' \<inter> set m = {}" by auto
        with "1.IH" \<open>s = c # cs\<close> p' "1.prems"(1,4) have "prefix j' cs" by auto
        with a Cons \<open>s = c # cs\<close> show ?thesis by simp
      qed
    qed
  qed
qed

lemma replace_sublist_back:
  "K \<noteq> [] \<Longrightarrow> sublist j (replace s K m) \<Longrightarrow> set j \<inter> set m = {} \<Longrightarrow> m \<noteq> [] \<Longrightarrow> j \<noteq> []
    \<Longrightarrow> sublist j s"
proof (induction s rule: length_induct)
  case (1 s)
  show ?case
  proof (cases s)
    case Nil
    with 1 show ?thesis by (simp add: replace_Nil)
  next
    case (Cons c cs)
    show ?thesis
    proof (cases "prefix K (c # cs)")
      case True
      with "1.prems" Cons have "sublist j (m @ replace (drop (length K) s) K m)"
        by (simp add: replace_hit)
      then have "sublist j (replace (drop (length K) s) K m)"
        using "1.prems"(3,5) by (rule sublist_append_disjoint)
      moreover have "length (drop (length K) s) < length s"
        using "1.prems"(1) Cons by simp
      ultimately have "sublist j (drop (length K) s)" using "1.IH" "1.prems" by blast
      then show ?thesis by (meson sublist_drop sublist_order.order_trans)
    next
      case False
      with "1.prems" Cons have "sublist j (c # replace cs K m)" by (simp add: replace_miss)
      then consider "prefix j (c # replace cs K m)" | "sublist j (replace cs K m)"
        by (auto simp: sublist_Cons_right)
      then show ?thesis
      proof cases
        case 1
        then have "prefix j (replace (c # cs) K m)"
          using False \<open>K \<noteq> []\<close> by (simp add: replace_miss)
        then have "prefix j (c # cs)" using \<open>K \<noteq> []\<close> \<open>set j \<inter> set m = {}\<close> \<open>m \<noteq> []\<close>
          by (metis replace_prefix_back)
        then show ?thesis using Cons by auto
      next
        case 2
        with "1.IH" Cons "1.prems" have "sublist j cs" by auto
        then show ?thesis using Cons by (simp add: sublist_Cons_right)
      qed
    qed
  qed
qed

text \<open>
  When the new string shares no character with the old one, no occurrence of the old
  string is left, and none that was not there before appears.
\<close>

lemma replace_removes:
  assumes "K \<noteq> []" "set K \<inter> set m = {}" "m \<noteq> []"
  shows "\<not> sublist K (replace s K m)"
proof (induction s rule: length_induct)
  case (1 s)
  show ?case
  proof (cases s)
    case Nil
    then show ?thesis using assms(1) by (simp add: replace_Nil)
  next
    case (Cons c cs)
    show ?thesis
    proof (cases "prefix K (c # cs)")
      case True
      have "length (drop (length K) s) < length s" using assms(1) Cons by simp
      then have "\<not> sublist K (replace (drop (length K) s) K m)"
        using 1 by blast
      then have "\<not> sublist K (m @ replace (drop (length K) s) K m)"
        using sublist_append_disjoint[OF _ assms(2) assms(1)] by blast
      with True Cons assms(1) show ?thesis by (simp add: replace_hit)
    next
      case False
      have a: "\<not> sublist K (replace cs K m)" using 1 Cons by auto
      have "\<not> prefix K (replace (c # cs) K m)"
        using replace_prefix_back[OF assms(1) _ assms(2,3)] False by blast
      with a False Cons assms(1) show ?thesis by (simp add: replace_miss sublist_Cons_right)
    qed
  qed
qed

text \<open>
  An occurrence of \<open>j\<close> survives the replacement of \<open>K\<close> when occurrences of the two
  cannot overlap.
\<close>

lemma prefix_append_cases:
  "prefix a (b @ c) \<Longrightarrow> prefix a b \<or> (\<exists>u. u \<noteq> [] \<and> a = b @ u \<and> prefix u c)"
  by (auto simp: prefix_append)

lemma prefix_of_append: "prefix u (j @ q) \<Longrightarrow> prefix u j \<or> prefix j u"
  by (metis prefix_append prefixI)

lemma replace_skips_suffix:
  assumes "K \<noteq> []" "overlap_free j K"
  shows "suffix u j \<Longrightarrow> replace (u @ q) K m = u @ replace q K m"
proof (induction u)
  case Nil
  then show ?case by simp
next
  case (Cons c u)
  have "\<not> prefix (c # u) K \<and> \<not> prefix K (c # u)"
    using overlap_freeD[OF assms(2) Cons.prems] by simp
  then have "\<not> prefix K ((c # u) @ q)" using prefix_of_append[of K "c # u" q] by blast
  moreover have "suffix u j" using Cons.prems by (rule suffix_ConsD)
  ultimately show ?case using Cons.IH assms(1) by (simp add: replace_miss)
qed

lemma replace_keeps:
  assumes "K \<noteq> []" "overlap_free j K" "overlap_free K j"
  shows "sublist j (replace (p @ j @ q) K m)"
proof (induction p rule: length_induct)
  case (1 p)
  show ?case
  proof (cases p)
    case Nil
    then show ?thesis using replace_skips_suffix[OF assms(1,2) suffix_order.order_refl, of q m]
      by simp
  next
    case (Cons c p')
    show ?thesis
    proof (cases "prefix K (p @ j @ q)")
      case True
      have "prefix K p"
      proof (rule ccontr)
        assume np: "\<not> prefix K p"
        with True obtain u where u: "u \<noteq> []" "K = p @ u" "prefix u (j @ q)"
          using prefix_append_cases by blast
        then have "suffix u K" by (simp add: suffix_def)
        from overlap_freeD[OF assms(3) this u(1)] prefix_of_append[OF u(3)]
        show False by blast
      qed
      then obtain p'' where p'': "p = K @ p''" by (auto simp: prefix_def)
      have "length p'' < length p" using p'' assms(1) by simp
      with 1 have "sublist j (replace (p'' @ j @ q) K m)" by blast
      moreover have "replace (p @ j @ q) K m = m @ replace (p'' @ j @ q) K m"
        using replace_hit[OF assms(1) True] p'' by simp
      ultimately show ?thesis by (simp add: sublist_append)
    next
      case False
      have "sublist j (replace (p' @ j @ q) K m)" using 1 Cons by simp
      then show ?thesis using False Cons assms(1) by (simp add: replace_miss sublist_Cons_right)
    qed
  qed
qed

lemma replace_keeps_sublist:
  assumes "K \<noteq> []" "overlap_free j K" "overlap_free K j" "sublist j s"
  shows "sublist j (replace s K m)"
proof -
  from assms(4) obtain ps ss where "s = ps @ j @ ss" by (auto simp: sublist_def)
  then show ?thesis using replace_keeps[OF assms(1,2,3)] by simp
qed

lemma kw_plain: "list_all (\<lambda>k. k \<noteq> [] \<and> lower k = k) sensitive_keywords"
  by (simp add: sensitive_keywords_def lower_def lower_char_def code_point_def)

lemma kw_distinct: "distinct sensitive_keywords"
  by (simp add: sensitive_keywords_def)

lemma kw_lowercase: "list_all (list_all lowercase_letter) sensitive_keywords"
  by (simp add: sensitive_keywords_def lowercase_letter_def code_point_def)

lemma upper_char_not_lowercase: "\<not> lowercase_letter (upper_char c)"
  by (auto simp: upper_char_def lowercase_letter_def code_point_def Let_def)

lemma marker_frame_not_lowercase:
  "list_all (\<lambda>c. \<not> lowercase_letter c) ''[''"
  "list_all (\<lambda>c. \<not> lowercase_letter c) ''_INFO_RESTRICTED]''"
  by (simp_all add: lowercase_letter_def code_point_def)

lemma marker_not_lowercase:
  assumes "c \<in> set (restriction_marker k)"
  shows "\<not> lowercase_letter c"
proof -
  define a b where "a = ''[''" and "b = ''_INFO_RESTRICTED]''"
  have "restriction_marker k = a @ map upper_char k @ b"
    by (simp add: restriction_marker_def upper_def a_def b_def)
  with assms consider "c \<in> set a" | "c \<in> upper_char ` set k" | "c \<in> set b"
    by auto
  then show ?thesis
  proof cases
    case 1
    then show ?thesis using marker_frame_not_lowercase(1) unfolding a_def list_all_iff by blast
  next
    case 2
    then show ?thesis using upper_char_not_lowercase by auto
  next
    case 3
    then show ?thesis using marker_frame_not_lowercase(2) unfolding b_def list_all_iff by blast
  qed
qed

lemma kw_marker_disjointD:
  "k \<in> set sensitive_keywords \<Longrightarrow> set k \<inter> set (restriction_marker k') = {}"
  using kw_lowercase marker_not_lowercase by (fastforce simp: list_all_iff)

lemma disjoint_overlap_free:
  assumes "set a \<inter> set b = {}" "b \<noteq> []"
  shows "overlap_free a b"
proof -
  have "\<not> prefix u b \<and> \<not> prefix b u" if "suffix u a" "u \<noteq> []" for u
  proof -
    from that(1) have sub: "set u \<subseteq> set a" by (rule set_mono_suffix)
    have "\<not> prefix u b"
    proof
      assume "prefix u b"
      then have "set u \<subseteq> set b" by (rule set_mono_prefix)
      with sub assms(1) that(2) show False by (cases u) auto
    qed
    moreover have "\<not> prefix b u"
    proof
      assume "prefix b u"
      then have "set b \<subseteq> set u" by (rule set_mono_prefix)
      with sub assms show False by (cases b) auto
    qed
    ultimately show ?thesis by simp
  qed
  then show ?thesis by (auto simp: overlap_free_def list_all_iff in_set_suffixes)
qed

lemma kw_overlap:
  "list_all (\<lambda>k. list_all (\<lambda>k'. k = k' \<or> overlap_free k k') sensitive_keywords) sensitive_keywords"
  by (simp add: sensitive_keywords_def overlap_free_def)

lemma kwD:
  assumes "k \<in> set sensitive_keywords"
  shows "k \<noteq> []" "lower k = k"
  using kw_plain assms by (auto simp: list_all_iff)

lemma kw_overlapD:
  "k \<in> set sensitive_keywords \<Longrightarrow> k' \<in> set sensitive_keywords \<Longrightarrow> k \<noteq> k' \<Longrightarrow> overlap_free k k'"
  using kw_overlap by (auto simp: list_all_iff)

lemma marker_nonempty: "restriction_marker k \<noteq> []"
  by (simp add: restriction_marker_def)

lemma kw_marker_overlapD:
  assumes "k' \<in> set sensitive_keywords"
  shows "overlap_free (restriction_marker k) k'" "overlap_free k' (restriction_marker k)"
proof -
  have d: "set k' \<inter> set (restriction_marker k) = {}" using assms by (rule kw_marker_disjointD)
  then have d': "set (restriction_marker k) \<inter> set k' = {}" by blast
  show "overlap_free (restriction_marker k) k'"
    using d' kwD(1)[OF assms] by (rule disjoint_overlap_free)
  show "overlap_free k' (restriction_marker k)"
    using d marker_nonempty by (rule disjoint_overlap_free)
qed


lemma sublist_lower: "sublist k s \<Longrightarrow> sublist (lower k) (lower s)"
  unfolding lower_def by (rule map_mono_sublist)

lemma redact_keyword_replace:
  assumes "k \<in> set sensitive_keywords"
  shows "redact_keyword k s = replace s k (restriction_marker k)"
proof (cases "sublist (lower k) (lower s)")
  case True
  then show ?thesis by (simp add: redact_keyword_def)
next
  case False
  then have "\<not> sublist k s" using sublist_lower by blast
  then show ?thesis using False kwD(1)[OF assms] by (simp add: redact_keyword_def replace_absent)
qed

lemma fold_redact_absent:
  "set ks \<subseteq> set sensitive_keywords \<Longrightarrow> j \<in> set sensitive_keywords \<Longrightarrow> \<not> sublist j s
     \<Longrightarrow> \<not> sublist j (fold redact_keyword ks s)"
proof (induction ks arbitrary: s)
  case Nil
  then show ?case by simp
next
  case (Cons k ks)
  have k: "k \<in> set sensitive_keywords" using Cons.prems(1) by simp
  have "\<not> sublist j (replace s k (restriction_marker k))"
    using replace_sublist_back[OF kwD(1)[OF k] _ kw_marker_disjointD[OF Cons.prems(2)]
        marker_nonempty kwD(1)[OF Cons.prems(2)]] Cons.prems(3) by blast
  then have "\<not> sublist j (redact_keyword k s)" by (simp add: redact_keyword_replace[OF k])
  with Cons show ?case by simp
qed

lemma fold_redact_keeps:
  "set ks \<subseteq> set sensitive_keywords \<Longrightarrow>
   (\<forall>k\<in>set ks. overlap_free j k \<and> overlap_free k j) \<Longrightarrow> sublist j s
     \<Longrightarrow> sublist j (fold redact_keyword ks s)"
proof (induction ks arbitrary: s)
  case Nil
  then show ?case by simp
next
  case (Cons k ks)
  have k: "k \<in> set sensitive_keywords" using Cons.prems(1) by simp
  have "sublist j (replace s k (restriction_marker k))"
    using replace_keeps_sublist[OF kwD(1)[OF k]] Cons.prems(2,3) by simp
  then have "sublist j (redact_keyword k s)" by (simp add: redact_keyword_replace[OF k])
  with Cons show ?case by simp
qed

lemma fold_redact_keyword:
  assumes k: "k \<in> set sensitive_keywords"
  shows "\<not> sublist k (fold redact_keyword sensitive_keywords s)"
    and "sublist k s \<Longrightarrow> sublist (restriction_marker k) (fold redact_keyword sensitive_keywords s)"
proof -
  from k obtain pre post where split: "sensitive_keywords = pre @ k # post"
    by (auto dest: split_list)
  have nin: "k \<notin> set pre" "k \<notin> set post" using kw_distinct unfolding split by auto
  have sub: "set pre \<subseteq> set sensitive_keywords" "set post \<subseteq> set sensitive_keywords"
    unfolding split by auto
  let ?s1 = "fold redact_keyword pre s"
  let ?s2 = "replace ?s1 k (restriction_marker k)"
  have R: "fold redact_keyword sensitive_keywords s = fold redact_keyword post ?s2"
    by (simp add: split redact_keyword_replace[OF k])
  have "\<not> sublist k ?s2"
    using replace_removes[OF kwD(1)[OF k] kw_marker_disjointD[OF k] marker_nonempty] .
  then show "\<not> sublist k (fold redact_keyword sensitive_keywords s)"
    unfolding R using fold_redact_absent[OF sub(2) k] by blast
  assume occ: "sublist k s"
  have "\<forall>k'\<in>set pre. overlap_free k k' \<and> overlap_free k' k"
    using kw_overlapD k sub(1) nin(1) by blast
  then have "sublist k ?s1" using fold_redact_keeps[OF sub(1) _ occ] by blast
  then have "sublist (restriction_marker k) ?s2" using replace_inserts[OF kwD(1)[OF k]] by blast
  moreover have "\<forall>k'\<in>set post. overlap_free (restriction_marker k) k' \<and>
      overlap_free k' (restriction_marker k)"
    using kw_marker_overlapD sub(2) by blast
  ultimately show "sublist (restriction_marker k) (fold redact_keyword sensitive_keywords s)"
    unfolding R using fold_redact_keeps[OF sub(2)] by blast
qed

lemma fold_redact_unchanged:
  "\<forall>k\<in>set ks. \<not> sublist (lower k) (lower s) \<Longrightarrow> fold redact_keyword ks s = s"
  by (induction ks) (auto simp: redact_keyword_def)

lemma effective_role_perms:
  "\<exists>perms. map_of role_permissions (effective_role role) = Some perms"
  by (auto simp: effective_role_def role_permissions_def)

section \<open>Properties of the chunker\<close>

lemma dropWhile_fixed: "xs = [] \<or> \<not> P (hd xs) \<Longrightarrow> dropWhile P xs = xs"
  by (cases xs) auto

lemma dropWhile_hd: "dropWhile P xs = [] \<or> \<not> P (hd (dropWhile P xs))"
  by (metis hd_dropWhile)

lemma strip_idem: "strip (strip s) = strip s"
proof -
  define u where "u = dropWhile isspace s"
  define w where "w = dropWhile isspace (rev u)"
  have t: "strip s = rev w" by (simp add: strip_def u_def w_def)
  have w_fix: "dropWhile isspace w = w"
    unfolding w_def by (rule dropWhile_fixed) (rule dropWhile_hd)
  have "suffix w (rev u)" unfolding w_def by (rule suffix_dropWhile)
  then obtain p where p: "rev u = p @ w" by (auto simp: suffix_def)
  then have u: "u = rev w @ rev p" by (metis rev_append rev_rev_ident)
  have "rev w = [] \<or> \<not> isspace (hd (rev w))"
  proof (cases "rev w = []")
    case False
    then have "hd (rev w) = hd u" using u by simp
    moreover have "u \<noteq> []" using u False by simp
    ultimately show ?thesis using dropWhile_hd[of isspace s] unfolding u_def by metis
  qed simp
  then have "dropWhile isspace (rev w) = rev w" by (rule dropWhile_fixed)
  then have "strip (rev w) = rev w" unfolding strip_def by (simp add: w_fix)
  then show ?thesis by (simp add: t)
qed

lemma trimmed_append_chunk:
  "trimmed_chunks chunks \<Longrightarrow> trimmed_chunks (append_chunk chunks (strip s))"
  by (simp add: trimmed_chunks_def append_chunk_def strip_idem)

text \<open>
  The loop trims every slice and drops the empty ones: whatever it returns holds only
  non-empty, trimmed chunks.
\<close>

lemma chunk_loop_trimmed:
  assumes "chunk_loop t cs ov st ch = Some r"
  shows "trimmed_chunks ch \<longrightarrow> trimmed_chunks r"
proof (rule chunk_loop.raw_induct
    [where P = "\<lambda>t cs ov st ch r. trimmed_chunks ch \<longrightarrow> trimmed_chunks r",
     OF _ assms])
  fix f t cs ov st ch and r :: "string list"
  assume IH: "\<And>t cs ov st ch r. f t cs ov st ch = Some r \<Longrightarrow>
                 trimmed_chunks ch \<longrightarrow> trimmed_chunks r"
    and body: "(if st < int (length t)
      then let end1 = window_end t cs st; chunk = strip (slice t st end1)
           in f t cs ov (next_start st end1 ov) (append_chunk ch chunk)
      else Some ch) = Some r"
  show "trimmed_chunks ch \<longrightarrow> trimmed_chunks r"
  proof (cases "st < int (length t)")
    case True
    with body have "f t cs ov (next_start st (window_end t cs st) ov)
        (append_chunk ch (strip (slice t st (window_end t cs st)))) = Some r"
      by (simp add: Let_def)
    from IH[OF this] show ?thesis by (simp add: trimmed_append_chunk)
  next
    case False
    with body show ?thesis by simp
  qed
qed

lemma chunk_text_long_trimmed:
  "chunk_size < int (length t) \<Longrightarrow> chunk_text t chunk_size overlap = Some r \<Longrightarrow> trimmed_chunks r"
  using chunk_loop_trimmed[of t chunk_size overlap 0 "[]" r]
  by (simp add: chunk_text_def trimmed_chunks_def)

text \<open>
  C2. The claim: a text no longer than the chunk size comes back as one chunk, trimmed,
  and as no chunk at all when it is empty after trimming, so that every returned chunk
  is non-empty after trimming. The short-text branch returns the text as it is: the
  empty text gives one empty chunk, and a text with white space at an end keeps it.
  (The loop for longer texts does trim and drop, see \<open>chunk_text_long_trimmed\<close>.)
\<close>

theorem chunk_text_short_untrimmed:
  "chunk_text [] 500 50 = Some [[]] \<and> chunk_text '' a'' 500 50 = Some ['' a'']"
  by (simp add: chunk_text_def)

lemma window_end_gt: "0 < chunk_size \<Longrightarrow> st < window_end t chunk_size st"
  by (auto simp: window_end_def Let_def)

lemma next_start_gt: "st < e \<Longrightarrow> st < next_start st e overlap"
  by (simp add: next_start_def)

text \<open>With a positive chunk size every round moves \<open>start\<close> forward, and the loop ends.\<close>

lemma chunk_loop_terminates:
  "0 < cs \<Longrightarrow> \<exists>ys. chunk_loop t cs ov st chunks = Some ys"
proof (induction "nat (int (length t) - st)" arbitrary: st chunks rule: less_induct)
  case less
  show ?case
  proof (cases "st < int (length t)")
    case False
    then show ?thesis by (subst chunk_loop.simps) simp
  next
    case True
    let ?e = "window_end t cs st"
    let ?s = "next_start st ?e ov"
    have "st < ?s" using less.prems by (simp add: window_end_gt next_start_gt)
    with True have "nat (int (length t) - ?s) < nat (int (length t) - st)" by linarith
    from less.hyps[OF this less.prems]
    obtain ys where "chunk_loop t cs ov ?s (append_chunk chunks (strip (slice t st ?e))) = Some ys"
      by blast
    with True show ?thesis by (subst chunk_loop.simps) (simp add: Let_def)
  qed
qed

lemma chunk_text_terminates:
  "0 < chunk_size \<Longrightarrow> \<exists>ys. chunk_text t chunk_size overlap = Some ys"
  by (simp add: chunk_text_def chunk_loop_terminates)

lemma chunk_loop_stuck:
  assumes "chunk_loop t cs ov st ch = Some r"
  shows "\<not> (t = ''a'' \<and> cs = 0 \<and> ov = 0 \<and> st = 0 \<and> ch = [])"
proof (rule chunk_loop.raw_induct
    [where P = "\<lambda>t cs ov st ch r. \<not> (t = ''a'' \<and> cs = 0 \<and> ov = 0 \<and> st = 0 \<and> ch = [])",
     OF _ assms])
  fix f t cs ov st ch and r :: "string list"
  assume IH: "\<And>t cs ov st ch r. f t cs ov st ch = Some r \<Longrightarrow>
                 \<not> (t = ''a'' \<and> cs = 0 \<and> ov = 0 \<and> st = 0 \<and> ch = [])"
    and body: "(if st < int (length t)
      then let end1 = window_end t cs st; chunk = strip (slice t st end1)
           in f t cs ov (next_start st end1 ov) (append_chunk ch chunk)
      else Some ch) = Some r"
  show "\<not> (t = ''a'' \<and> cs = 0 \<and> ov = 0 \<and> st = 0 \<and> ch = [])"
  proof
    assume a: "t = ''a'' \<and> cs = 0 \<and> ov = 0 \<and> st = 0 \<and> ch = []"
    have we: "window_end ''a'' 0 0 = 0"
      by (simp add: window_end_def rfind_def adjust_index_def)
    have ns: "next_start 0 0 0 = 0"
      by (simp add: next_start_def)
    have ac: "append_chunk [] (strip (slice ''a'' 0 0)) = []"
      by (simp add: append_chunk_def strip_def slice_def adjust_index_def)
    from a body have "f ''a'' 0 0 0 [] = Some r"
      by (simp add: we ns ac Let_def)
    from IH[OF this] show False by simp
  qed
qed

lemma chunk_loop_diverges: "chunk_loop ''a'' 0 0 0 [] = None"
  using chunk_loop_stuck[of "''a''" 0 0 0 "[]"] by (cases "chunk_loop ''a'' 0 0 0 []") auto

text \<open>
  C7. The claim: \<open>chunk_text\<close> terminates for every text and every integer chunk size and
  overlap. With chunk size 0 and overlap 0 on the text \<open>a\<close> the window is empty,
  \<open>end - overlap <= start\<close> holds and \<open>start\<close> is set to \<open>end\<close>, which is \<open>start\<close>
  again: the loop never exits. (For a positive chunk size it does terminate, see
  \<open>chunk_text_terminates\<close>.)
\<close>

theorem chunk_text_zero_size_diverges: "chunk_text ''a'' 0 0 = None"
  by (simp add: chunk_text_def chunk_loop_diverges)

section \<open>Properties of the role filter\<close>

lemma fold_redact_keyword_eq:
  "set ks \<subseteq> set sensitive_keywords \<Longrightarrow>
   fold redact_keyword ks s = fold (\<lambda>keyword s. replace s keyword (restriction_marker keyword)) ks s"
  by (induction ks arbitrary: s) (auto simp: redact_keyword_replace)

lemma fold_redact_all: "fold redact_keyword sensitive_keywords t = redact_all t"
  unfolding redact_all_def by (rule fold_redact_keyword_eq) simp

lemma sublist_iff_prefix_drop:
  "k \<noteq> [] \<Longrightarrow> sublist k s \<longleftrightarrow> (\<exists>i<length s. prefix k (drop i s))"
proof
  assume k: "k \<noteq> []" and "sublist k s"
  then obtain ps ss where s: "s = ps @ k @ ss" by (auto simp: sublist_def)
  then have "length ps < length s" "prefix k (drop (length ps) s)" using k by auto
  then show "\<exists>i<length s. prefix k (drop i s)" by blast
next
  assume "\<exists>i<length s. prefix k (drop i s)"
  then obtain i where "prefix k (drop i s)" by blast
  then have "sublist k (drop i s)" by (rule prefix_imp_sublist)
  then show "sublist k s" by (meson sublist_drop sublist_order.order_trans)
qed

lemma plainly_spelled_occurs:
  assumes "plainly_spelled t" "k \<in> set sensitive_keywords" "sublist k (lower t)"
  shows "sublist k t"
proof -
  have k: "k \<noteq> []" using assms(2) by (rule kwD(1))
  from assms(3) obtain i where i: "i < length (lower t)" "prefix k (drop i (lower t))"
    using sublist_iff_prefix_drop[OF k] by blast
  then have "i < length t" by (simp add: lower_def)
  with assms(1,2) i(2) have "prefix k (drop i t)"
    by (auto simp: plainly_spelled_def list_all_iff)
  with \<open>i < length t\<close> show ?thesis using sublist_iff_prefix_drop[OF k] by blast
qed

text \<open>
  The first occurrence of the old string is replaced where it stands; what comes before
  it is kept, and the replacement goes on behind it.
\<close>

lemma replace_first:
  assumes "K \<noteq> []"
  shows "\<not> sublist K (p @ butlast K) \<Longrightarrow> replace (p @ K @ s) K m = p @ m @ replace s K m"
proof (induction p)
  case Nil
  then show ?case using assms by (simp add: replace_hit)
next
  case (Cons c p)
  have "\<not> prefix K ((c # p) @ K @ s)"
  proof
    assume pre: "prefix K ((c # p) @ K @ s)"
    have eq: "(c # p) @ K @ s = ((c # p) @ butlast K) @ (last K # s)"
      using assms by simp
    have "length K \<le> length ((c # p) @ butlast K)" by simp
    with pre have "prefix K ((c # p) @ butlast K)"
      unfolding eq by (metis prefix_length_prefix prefixI)
    then have "sublist K ((c # p) @ butlast K)" by (rule prefix_imp_sublist)
    with Cons.prems show False by simp
  qed
  moreover have "\<not> sublist K (p @ butlast K)"
    using Cons.prems by (auto simp: sublist_Cons_right)
  ultimately show ?case using Cons.IH assms by (simp add: replace_miss)
qed

text \<open>
  The test for a term ignores case (\<open>keyword.lower() in filtered_response.lower()\<close>),
  the replacement does not (\<open>replace(keyword, ...)\<close>): a term in another casing passes
  the test and stays in the text, and no disclaimer is added. This is a defect of the
  code. The statements below are about texts that spell the terms as the keyword list
  does and say nothing about other casings.
\<close>

lemma filter_response_other_casing:
  "filter_response ''Reset the Password now'' ''public'' = Inr ''Reset the Password now''"
  by code_simp

text \<open>
  C3, as the claim states it, fails on its own example, whatever the casing: the word
  \<open>encrypted\<close> holds no sensitive term (the term is \<open>encryption\<close>), and the answer for
  \<open>Passwords must be encrypted.\<close> and the role \<open>public\<close> still holds \<open>encrypted\<close>. The
  same sentence with \<open>passwords\<close> in lower case gets the marker for \<open>password\<close> and the
  disclaimer, and keeps \<open>encrypted\<close> as well.
\<close>

theorem filter_response_encrypted_counterexample:
  "\<not> role_sensitive_info ''public'' \<and>
   \<not> isl (filter_response ''Passwords must be encrypted.'' ''public'') \<and>
   sublist ''encrypted'' (projr (filter_response ''Passwords must be encrypted.'' ''public'')) \<and>
   filter_response ''passwords must be encrypted.'' ''public'' =
     Inr (''[PASSWORD_INFO_RESTRICTED]s must be encrypted.'' @ disclaimer)"
  by code_simp

text \<open>
  C3, amended. A role that may see sensitive information gets the text back unchanged.
  For any other role (an unknown role counts as \<open>public\<close>) and a text that spells every
  sensitive term it holds as the keyword list does: when no sensitive term occurs, the
  text comes back unchanged; when one occurs, the answer is \<open>redact_all\<close> of the text
  followed by the disclaimer, that is the text with every literal occurrence of every
  term replaced by the term's marker \<open>[TERM_INFO_RESTRICTED]\<close> and all other text kept.
  The redacted text holds no sensitive term in the keyword list's spelling, and the
  marker of every term that the text held in that spelling.
\<close>

theorem filter_response_redaction:
  "(role_sensitive_info role \<longrightarrow> filter_response t role = Inr t) \<and>
   (\<not> role_sensitive_info role \<longrightarrow> plainly_spelled t \<longrightarrow>
      filter_response t role =
        Inr (if \<exists>k\<in>set sensitive_keywords. sublist k (lower t)
             then redact_all t @ disclaimer else t)) \<and>
   (\<forall>k\<in>set sensitive_keywords.
      \<not> sublist k (redact_all t) \<and>
      (sublist k t \<longrightarrow> sublist (restriction_marker k) (redact_all t)))"
proof -
  obtain perms where p: "map_of role_permissions (effective_role role) = Some perms"
    using effective_role_perms by blast
  have 1: "role_sensitive_info role \<longrightarrow> filter_response t role = Inr t"
    using p by (simp add: role_sensitive_info_def filter_response_def)
  have 3: "\<forall>k\<in>set sensitive_keywords.
      \<not> sublist k (redact_all t) \<and>
      (sublist k t \<longrightarrow> sublist (restriction_marker k) (redact_all t))"
    using fold_redact_keyword[of _ t] unfolding fold_redact_all by blast
  have 2: "filter_response t role =
        Inr (if \<exists>k\<in>set sensitive_keywords. sublist k (lower t)
             then redact_all t @ disclaimer else t)"
    if ns: "\<not> role_sensitive_info role" and ps: "plainly_spelled t"
  proof (cases "\<exists>k\<in>set sensitive_keywords. sublist k (lower t)")
    case True
    then obtain k where k: "k \<in> set sensitive_keywords" "sublist k (lower t)" by blast
    then have "sublist k t" using ps by (meson plainly_spelled_occurs)
    moreover have "\<not> sublist k (redact_all t)" using 3 k(1) by blast
    ultimately have "redact_all t \<noteq> t" by auto
    then show ?thesis using p ns True
      by (simp add: role_sensitive_info_def filter_response_def Let_def fold_redact_all)
  next
    case False
    then have "\<forall>k\<in>set sensitive_keywords. \<not> sublist (lower k) (lower t)"
      using kwD(2) by simp
    then have "fold redact_keyword sensitive_keywords t = t" by (rule fold_redact_unchanged)
    then show ?thesis using p ns False
      by (simp add: role_sensitive_info_def filter_response_def)
  qed
  from 1 2 3 show ?thesis by blast
qed

theorem filter_response_redaction_witness:
  "role_sensitive_info ''admin'' \<and>
   filter_response ''Reset the password now'' ''admin'' = Inr ''Reset the password now'' \<and>
   \<not> role_sensitive_info ''public'' \<and>
   plainly_spelled ''Reset the password now'' \<and>
   filter_response ''Reset the password now'' ''public'' =
     Inr (''Reset the [PASSWORD_INFO_RESTRICTED] now'' @ disclaimer) \<and>
   plainly_spelled ''Hello'' \<and>
   filter_response ''Hello'' ''public'' = Inr ''Hello'' \<and>
   sublist ''password'' ''Reset the password now'' \<and>
   sublist (restriction_marker ''password'') (redact_all ''Reset the password now'')"
proof -
  have a: "role_sensitive_info ''admin''" by code_simp
  have b: "\<not> role_sensitive_info ''public''" by code_simp
  have p1: "plainly_spelled ''Reset the password now''" by code_simp
  have p2: "plainly_spelled ''Hello''" by code_simp
  have o1: "\<exists>k\<in>set sensitive_keywords. sublist k (lower ''Reset the password now'')"
    by code_simp
  have o2: "\<not> (\<exists>k\<in>set sensitive_keywords. sublist k (lower ''Hello''))"
    by code_simp
  have r: "redact_all ''Reset the password now'' = ''Reset the [PASSWORD_INFO_RESTRICTED] now''"
    by code_simp
  have k: "''password'' \<in> set sensitive_keywords" by code_simp
  have s: "sublist ''password'' ''Reset the password now''" by code_simp
  from a have 1: "filter_response ''Reset the password now'' ''admin'' = Inr ''Reset the password now''"
    using filter_response_redaction[of "''admin''" "''Reset the password now''"] by blast
  from b p1 o1 r have 2: "filter_response ''Reset the password now'' ''public'' =
     Inr (''Reset the [PASSWORD_INFO_RESTRICTED] now'' @ disclaimer)"
    using filter_response_redaction[of "''public''" "''Reset the password now''"] by simp
  from b p2 o2 have 3: "filter_response ''Hello'' ''public'' = Inr ''Hello''"
    using filter_response_redaction[of "''public''" "''Hello''"] by simp
  from k s have 4: "sublist (restriction_marker ''password'') (redact_all ''Reset the password now'')"
    using filter_response_redaction[of "''public''" "''Reset the password now''"] by blast
  from a b p1 p2 s 1 2 3 4 show ?thesis by blast
qed

lemma fold_keep: "fold (\<lambda>d acc. if P d then acc @ [d] else acc) xs acc0 = acc0 @ filter P xs"
  by (induction xs arbitrary: acc0) auto

text \<open>
  C9. \<open>filter_documents\<close> replaces a role that is not in the permission table by
  \<open>public\<close>; it never fails; for a role with \<open>all_documents\<close> it returns the list as
  it is, and otherwise exactly the documents, in their order, whose allow-list holds the
  role, where the allow-list of a source without an entry in the restriction table is
  the list of all four roles.
\<close>

theorem filter_documents_spec:
  "effective_role role = (if role \<in> set (map fst role_permissions) then role else ''public'') \<and>
   (\<exists>perms. map_of role_permissions (effective_role role) = Some perms \<and>
      filter_documents docs role =
        Inr (if all_documents perms then docs
             else filter (\<lambda>doc. effective_role role \<in> set (allowed_roles doc)) docs)) \<and>
   allowed_roles doc =
     (case map_of document_restrictions (case source doc of None \<Rightarrow> [] | Some s \<Rightarrow> s) of
        None \<Rightarrow> map fst role_permissions | Some roles \<Rightarrow> roles)"
proof (intro conjI)
  show "effective_role role = (if role \<in> set (map fst role_permissions) then role else ''public'')"
    by (simp add: effective_role_def role_permissions_def)
  obtain perms where p: "map_of role_permissions (effective_role role) = Some perms"
    using effective_role_perms by blast
  then show "\<exists>perms. map_of role_permissions (effective_role role) = Some perms \<and>
      filter_documents docs role =
        Inr (if all_documents perms then docs
             else filter (\<lambda>doc. effective_role role \<in> set (allowed_roles doc)) docs)"
    by (simp add: filter_documents_def Let_def fold_keep)
  show "allowed_roles doc =
     (case map_of document_restrictions (case source doc of None \<Rightarrow> [] | Some s \<Rightarrow> s) of
        None \<Rightarrow> map fst role_permissions | Some roles \<Rightarrow> roles)"
    by (simp add: allowed_roles_def dict_get_def role_permissions_def split: option.split)
qed

section \<open>Properties of the embeddings\<close>

lemma map_result_Inr:
  "(\<And>x. x \<in> set xs \<Longrightarrow> f x = Inr (g x)) \<Longrightarrow> map_result f xs = Inr (map g xs)"
  by (induction xs) auto

lemma map_result_length: "map_result f xs = Inr ys \<Longrightarrow> length ys = length xs"
  by (induction xs arbitrary: ys) (auto split: sum.splits)

lemma Counter_Nil: "Counter [] = []"
  by (simp add: Counter_def)

lemma compute_tf_ok:
  "compute_tf tokens =
     Inr (map (\<lambda>(token, count). (token, real count / real (length tokens))) (Counter tokens))"
proof (cases "tokens = []")
  case True
  then show ?thesis by (simp add: compute_tf_def Counter_Nil)
next
  case False
  then show ?thesis
    unfolding compute_tf_def Let_def
    by (intro map_result_Inr) (auto simp: py_div_def)
qed

lemma in_update:
  "(a, b) \<in> set (AList.update k v al) \<Longrightarrow> (a, b) = (k, v) \<or> (a, b) \<in> set al"
  by (induction al) (auto split: if_splits)

lemma bump_positive:
  "\<forall>(w, c)\<in>set d. 0 < c \<Longrightarrow>
   \<forall>(w, c)\<in>set (fold (\<lambda>token d. AList.update token (dict_get d token 0 + 1) d) ts d). 0 < (c::nat)"
proof (induction ts arbitrary: d)
  case Nil
  then show ?case by simp
next
  case (Cons t ts)
  have "\<forall>(w, c)\<in>set (AList.update t (dict_get d t 0 + 1) d). 0 < c"
    using Cons.prems by (auto dest!: in_update)
  from Cons.IH[OF this] show ?case by simp
qed

lemma count_document_positive:
  "\<forall>(w, c)\<in>set d. 0 < c \<Longrightarrow> \<forall>(w, c)\<in>set (count_document doc d). 0 < c"
  unfolding count_document_def Let_def by (rule bump_positive)

lemma word_doc_count_positive:
  "\<forall>(w, c)\<in>set d. 0 < c \<Longrightarrow> \<forall>(w, c)\<in>set (fold count_document docs d). 0 < c"
proof (induction docs arbitrary: d)
  case Nil
  then show ?case by simp
next
  case (Cons doc docs)
  from Cons.IH[OF count_document_positive[OF Cons.prems]] show ?case by simp
qed

lemma compute_idf_ok: "\<exists>idf. compute_idf documents = Inr idf"
proof -
  let ?d = "fold count_document documents []"
  have pos: "0 < c" if "(w, c) \<in> set ?d" for w c
    using word_doc_count_positive[of "[]" documents] that by auto
  have "(case x of (word, count) \<Rightarrow>
           case py_div (real (length documents)) (real count) of
             Inl e \<Rightarrow> Inl e
           | Inr q \<Rightarrow> (case py_log q of Inl e \<Rightarrow> Inl e | Inr l \<Rightarrow> Inr (word, l))) =
        Inr (case x of (word, count) \<Rightarrow> (word, ln (real (length documents) / real count)))"
    if x: "x \<in> set ?d" for x
  proof -
    obtain w c where wc: "x = (w, c)" by (cases x)
    with x have c: "0 < c" using pos by blast
    have "documents \<noteq> []" using x by auto
    then have "0 < real (length documents) / real c" using c by simp
    then show ?thesis using c wc by (simp add: py_div_def py_log_def)
  qed
  then have "map_result (\<lambda>(word, count).
           case py_div (real (length documents)) (real count) of
             Inl e \<Rightarrow> Inl e
           | Inr q \<Rightarrow> (case py_log q of Inl e \<Rightarrow> Inl e | Inr l \<Rightarrow> Inr (word, l))) ?d =
        Inr (map (\<lambda>(word, count). (word, ln (real (length documents) / real count))) ?d)"
    by (rule map_result_Inr)
  then show ?thesis by (simp add: compute_idf_def)
qed

lemma fit_ok:
  "\<exists>model. fit self documents = Inr model \<and> fitted model \<and> vocabulary_in_range model"
proof -
  obtain idf where idf: "compute_idf documents = Inr idf" using compute_idf_ok by blast
  let ?u = "set_to_list (concat (map tokenize documents))"
  have "list_all (\<lambda>(token, idx). idx < length ?u) (zip ?u [0..<length ?u])"
    by (auto simp: list_all_iff dest: set_zip_rightD)
  then show ?thesis by (simp add: fit_def idf vocabulary_in_range_def Let_def)
qed

lemma fold_result_assign:
  assumes "vocabulary_in_range model"
  shows "length v = length (vocabulary model) \<Longrightarrow>
     \<exists>v'. fold_result (\<lambda>(token, tf) vector.
                 case map_of (vocabulary model) token of
                   None \<Rightarrow> Inr vector
                 | Some idx \<Rightarrow>
                     (let idf = dict_get (idf_scores model) token 0
                      in list_assign vector idx (tf * idf))) xs v = Inr v' \<and>
          length v' = length (vocabulary model)"
proof (induction xs arbitrary: v)
  case Nil
  then show ?case by simp
next
  case (Cons x xs)
  obtain token tf where x: "x = (token, tf)" by (cases x)
  show ?case
  proof (cases "map_of (vocabulary model) token")
    case None
    with Cons x show ?thesis by simp
  next
    case (Some idx)
    then have "(token, idx) \<in> set (vocabulary model)" by (rule map_of_SomeD)
    with assms have "idx < length (vocabulary model)"
      by (auto simp: vocabulary_in_range_def list_all_iff)
    with Cons.prems have "list_assign v idx (tf * dict_get (idf_scores model) token 0) =
        Inr (v[idx := tf * dict_get (idf_scores model) token 0])"
      by (simp add: list_assign_def)
    moreover have "length (v[idx := tf * dict_get (idf_scores model) token 0]) = length (vocabulary model)"
      using Cons.prems by simp
    ultimately show ?thesis using Cons.IH x Some by (simp add: Let_def)
  qed
qed

lemma transform_ok:
  assumes "fitted model" "vocabulary_in_range model"
  shows "\<exists>v. transform model q = Inr v \<and> length v = length (vocabulary model) \<and>
             (tokenize q = [] \<longrightarrow> v = replicate (length (vocabulary model)) 0)"
proof (cases "tokenize q = []")
  case True
  then show ?thesis using assms(1) by (simp add: transform_def compute_tf_ok Counter_Nil)
next
  case False
  then show ?thesis using assms(1) fold_result_assign[OF assms(2), of "replicate (length (vocabulary model)) 0"]
    by (simp add: transform_def compute_tf_ok Let_def)
qed

lemma transform_unfitted:
  "(transform model q = Inl (ValueError ''Model must be fitted before transforming'')) = (\<not> fitted model)"
proof (cases "fitted model")
  case False
  then show ?thesis by (simp add: transform_def)
next
  case True
  have "fold_result (\<lambda>(token, tf) vector.
                 case map_of (vocabulary model) token of
                   None \<Rightarrow> Inr vector
                 | Some idx \<Rightarrow>
                     (let idf = dict_get (idf_scores model) token 0
                      in list_assign vector idx (tf * idf))) xs v \<noteq> Inl (ValueError m)" for xs v m
    by (induction xs arbitrary: v) (auto simp: list_assign_def Let_def split: option.splits sum.splits if_splits)
  then show ?thesis using True by (simp add: transform_def compute_tf_ok Let_def)
qed

text \<open>
  C8. \<open>transform\<close> raises its "must be fitted" error (the \<open>ValueError\<close> that the
  specification calls UnfittedModelError) exactly when the model's \<open>fitted\<close> flag is not
  set, as in a new model. \<open>fit\<close> always succeeds and sets the flag, and the fitted model
  transforms every string into a vector of the vocabulary's length; a string without
  tokens gives the all-zero vector, and no division by zero occurs.
\<close>

theorem transform_fitted_total:
  "(transform model q = Inl (ValueError ''Model must be fitted before transforming''))
     = (\<not> fitted model) \<and>
   \<not> fitted SimpleEmbeddings_init \<and>
   (\<exists>model'. fit model documents = Inr model' \<and> fitted model' \<and>
      (\<exists>v. transform model' q = Inr v \<and> length v = length (vocabulary model') \<and>
           (tokenize q = [] \<longrightarrow> v = replicate (length (vocabulary model')) 0)))"
proof -
  obtain model' where m: "fit model documents = Inr model'" "fitted model'"
      "vocabulary_in_range model'"
    using fit_ok by blast
  from transform_ok[OF m(2,3)] m(1,2) show ?thesis
    by (simp add: transform_unfitted SimpleEmbeddings_init_def)
qed

theorem transform_fitted_total_witness:
  "tokenize ''?!'' = [] \<and>
   transform SimpleEmbeddings_init ''a'' = Inl (ValueError ''Model must be fitted before transforming'') \<and>
   (\<exists>model'. fit SimpleEmbeddings_init [''a b''] = Inr model' \<and>
      transform model' ''?!'' = Inr (replicate (length (vocabulary model')) 0))"
proof -
  have t: "tokenize ''?!'' = []" by code_simp
  from t transform_fitted_total[of SimpleEmbeddings_init "''a''" "[''a b'']"]
    transform_fitted_total[of SimpleEmbeddings_init "''?!''" "[''a b'']"]
  show ?thesis by auto
qed

section \<open>Properties of the vector store\<close>

lemma map_result_ok:
  "(\<And>x. x \<in> set xs \<Longrightarrow> \<exists>y. f x = Inr y \<and> P x y) \<Longrightarrow>
   \<exists>ys. map_result f xs = Inr ys \<and> length ys = length xs \<and>
        (\<forall>i<length xs. f (xs ! i) = Inr (ys ! i) \<and> P (xs ! i) (ys ! i))"
proof (induction xs)
  case Nil
  then show ?case by simp
next
  case (Cons x xs)
  from Cons.prems obtain y where y: "f x = Inr y" "P x y" by auto
  from Cons obtain ys where ys: "map_result f xs = Inr ys" "length ys = length xs"
      "\<forall>i<length xs. f (xs ! i) = Inr (ys ! i) \<and> P (xs ! i) (ys ! i)"
    by auto
  have "\<forall>i<length (x # xs). f ((x # xs) ! i) = Inr ((y # ys) ! i) \<and> P ((x # xs) ! i) ((y # ys) ! i)"
    using y ys(3) by (auto simp: nth_Cons split: nat.splits)
  with y ys show ?case by simp
qed

lemma fit_transform_ok:
  "\<exists>model vs. fit_transform self texts = Inr (model, vs) \<and> fitted model \<and>
      vocabulary_in_range model \<and> length vs = length texts \<and>
      list_all (\<lambda>v. length v = length (vocabulary model)) vs"
proof -
  obtain model where m: "fit self texts = Inr model" "fitted model" "vocabulary_in_range model"
    using fit_ok by blast
  have "\<exists>v. transform model x = Inr v \<and> length v = length (vocabulary model)" for x
    using transform_ok[OF m(2,3)] by blast
  then obtain vs where vs: "map_result (transform model) texts = Inr vs" "length vs = length texts"
      "\<forall>i<length texts. transform model (texts ! i) = Inr (vs ! i) \<and>
          length (vs ! i) = length (vocabulary model)"
    using map_result_ok[of texts "transform model" "\<lambda>x v. length v = length (vocabulary model)"]
    by blast
  have "list_all (\<lambda>v. length v = length (vocabulary model)) vs"
    using vs(2,3) by (auto simp: list_all_length)
  with m vs show ?thesis by (simp add: fit_transform_def)
qed

lemma add_documents_ok:
  "\<exists>self' vs. add_documents self documents = Inr self' \<and>
      vectors self' = vectors self @ vs \<and> length vs = length documents \<and>
      list_all (\<lambda>v. length v = length (vocabulary (embeddings_model self'))) vs \<and>
      metadata self' = metadata self @ documents \<and>
      fitted (embeddings_model self') \<and> vocabulary_in_range (embeddings_model self')"
proof -
  obtain model vs where f: "fit_transform (embeddings_model self) (map doc_text documents) = Inr (model, vs)"
      "fitted model" "vocabulary_in_range model" "length vs = length (map doc_text documents)"
      "list_all (\<lambda>v. length v = length (vocabulary model)) vs"
    using fit_transform_ok by blast
  then show ?thesis by (simp add: add_documents_def)
qed

lemma add_documents_store_ok:
  assumes "store_ok self" "add_documents self documents = Inr self'"
  shows "store_ok self'"
proof -
  from add_documents_ok[of self documents] assms(2)
  obtain vs where "vectors self' = vectors self @ vs" "length vs = length documents"
      "metadata self' = metadata self @ documents"
      "fitted (embeddings_model self')" "vocabulary_in_range (embeddings_model self')"
    by auto
  with assms(1) show ?thesis by (simp add: store_ok_def)
qed

lemma store_ok_init: "store_ok VectorStore_init"
  by (simp add: store_ok_def VectorStore_init_def SimpleEmbeddings_init_def vocabulary_in_range_def)

lemma built_store_ok: "built self \<Longrightarrow> store_ok self"
  by (induction rule: built.induct) (auto intro: store_ok_init add_documents_store_ok)

lemma sum_squares_nonneg: "0 \<le> sum_list (map (\<lambda>a. a * a) (v::real list))"
  by (induction v) auto

lemma cosine_similarity_ok: "\<exists>c. cosine_similarity u v = Inr c"
  by (auto simp: cosine_similarity_def Let_def py_div_def)

lemma cosine_similarity_zero: "cosine_similarity (replicate n 0) v = Inr 0"
proof -
  have "sum_list (map (\<lambda>a. a * a) (replicate n (0::real))) = 0"
    by (induction n) auto
  then show ?thesis by (simp add: cosine_similarity_def)
qed

lemma sort_reverse_props:
  fixes xs :: "('a::linorder) list"
  assumes "distinct xs"
  shows "sorted_wrt (\<lambda>a b. b < a) (sort_reverse xs)" "set (sort_reverse xs) = set xs"
    "length (sort_reverse xs) = length xs" "distinct (sort_reverse xs)"
proof -
  have "distinct (sort (rev xs))" using assms by simp
  then have "sorted_wrt (<) (sort (rev xs))" by (simp add: strict_sorted_iff)
  then show "sorted_wrt (\<lambda>a b. b < a) (sort_reverse xs)"
    by (simp add: sort_reverse_def sorted_wrt_rev)
  show "set (sort_reverse xs) = set xs" by (simp add: sort_reverse_def)
  show "length (sort_reverse xs) = length xs" by (simp add: sort_reverse_def)
  show "distinct (sort_reverse xs)" using assms by (simp add: sort_reverse_def)
qed

lemma ranked_similarities_ok:
  "\<exists>sims. ranked_similarities self qv = Inr sims \<and>
      length sims = length (vectors self) \<and>
      list_all (\<lambda>p. snd p < length (vectors self) \<and>
                   cosine_similarity qv (vectors self ! snd p) = Inr (fst p)) sims \<and>
      distinct (map snd sims) \<and>
      sorted_wrt (\<lambda>a b. fst a > fst b \<or> (fst a = fst b \<and> snd a > snd b)) sims"
proof -
  let ?n = "length (vectors self)"
  let ?f = "\<lambda>(i, doc_vector). case cosine_similarity qv doc_vector of
               Inl e \<Rightarrow> Inl e | Inr sim \<Rightarrow> Inr (sim, i)"
  let ?xs = "zip [0..<?n] (vectors self)"
  have "\<exists>y. ?f x = Inr y \<and> (snd y = fst x \<and> cosine_similarity qv (snd x) = Inr (fst y))" for x
    using cosine_similarity_ok[of qv "snd x"] by (cases x) auto
  then obtain ys where ys: "map_result ?f ?xs = Inr ys" "length ys = length ?xs"
      "\<forall>i<length ?xs. ?f (?xs ! i) = Inr (ys ! i) \<and>
          (snd (ys ! i) = fst (?xs ! i) \<and> cosine_similarity qv (snd (?xs ! i)) = Inr (fst (ys ! i)))"
    using map_result_ok[of ?xs ?f "\<lambda>x y. snd y = fst x \<and> cosine_similarity qv (snd x) = Inr (fst y)"]
    by blast
  have len: "length ys = ?n" using ys(2) by simp
  have nth: "snd (ys ! i) = i \<and> cosine_similarity qv (vectors self ! i) = Inr (fst (ys ! i))"
    if "i < ?n" for i
    using ys(3) that by simp
  have snds: "map snd ys = [0..<?n]"
    using len nth by (intro nth_equalityI) auto
  then have dist_snd: "distinct (map snd ys)" by simp
  then have dist: "distinct ys" and inj: "inj_on snd (set ys)" by (simp_all add: distinct_map)
  have all: "list_all (\<lambda>p. snd p < ?n \<and> cosine_similarity qv (vectors self ! snd p) = Inr (fst p)) ys"
    using len nth by (auto simp: list_all_length)
  let ?s = "sort_reverse ys"
  have set_eq: "set ?s = set ys" using sort_reverse_props(2)[OF dist] .
  have 1: "length ?s = ?n" using sort_reverse_props(3)[OF dist] len by simp
  have 2: "list_all (\<lambda>p. snd p < ?n \<and> cosine_similarity qv (vectors self ! snd p) = Inr (fst p)) ?s"
    using all set_eq by (simp add: list_all_iff)
  have 3: "distinct (map snd ?s)"
    using sort_reverse_props(4)[OF dist] inj set_eq by (simp add: distinct_map)
  have "sorted_wrt (\<lambda>a b. b < a) ?s" using sort_reverse_props(1)[OF dist] .
  then have 4: "sorted_wrt (\<lambda>a b. fst a > fst b \<or> (fst a = fst b \<and> snd a > snd b)) ?s"
    by (rule sorted_wrt_mono_rel[rotated]) (auto simp: less_prod_def)
  from ys(1) 1 2 3 4 show ?thesis by (simp add: ranked_similarities_def)
qed

lemma make_results_ok:
  assumes "list_all (\<lambda>p. snd p < length (metadata self)) ps"
  shows "map_result (make_result self) ps =
           Inr (map (\<lambda>p. scored (metadata self ! snd p) (fst p)) ps)"
  using assms by (intro map_result_Inr) (auto simp: make_result_def list_get_def list_all_iff)

lemma two_chunk_store_facts:
  shows "add_documents VectorStore_init [chunk0, chunk1] = Inr two_chunk_store"
    and "built two_chunk_store"
    and "metadata two_chunk_store = [chunk0, chunk1]"
    and "\<exists>v0 v1. vectors two_chunk_store = [v0, v1]"
proof -
  obtain s vs where s: "add_documents VectorStore_init [chunk0, chunk1] = Inr s"
      "vectors s = vectors VectorStore_init @ vs" "length vs = length [chunk0, chunk1]"
      "metadata s = metadata VectorStore_init @ [chunk0, chunk1]"
    using add_documents_ok by blast
  then have eq: "two_chunk_store = s" by (simp add: two_chunk_store_def)
  show "add_documents VectorStore_init [chunk0, chunk1] = Inr two_chunk_store"
    using s(1) eq by simp
  then show "built two_chunk_store" using built_init built_add by blast
  show "metadata two_chunk_store = [chunk0, chunk1]"
    using s(4) eq by (simp add: VectorStore_init_def)
  have "length (vectors s) = 2" using s(2,3) by (simp add: VectorStore_init_def)
  then show "\<exists>v0 v1. vectors two_chunk_store = [v0, v1]"
    unfolding eq by (cases "vectors s" rule: list.exhaust; simp) (metis length_0_conv length_Suc_conv One_nat_def Suc_1 Suc_inject)
qed

lemma sort_reverse_tie: "sort_reverse [(0::real, 0::nat), (0, Suc 0)] = [(0, Suc 0), (0, 0)]"
  by (simp add: sort_reverse_def less_eq_prod_def)

lemma two_chunk_store_no_tokens:
  assumes "tokenize q = []"
  shows "similarity_search two_chunk_store q k =
           Inr (map (\<lambda>p. scored ([chunk0, chunk1] ! snd p) (fst p))
                  (list_prefix [(0, 1), (0, 0)] k))"
proof -
  let ?s = two_chunk_store
  obtain v0 v1 where v: "vectors ?s = [v0, v1]" using two_chunk_store_facts(4) by blast
  have ok: "store_ok ?s" using two_chunk_store_facts(2) by (rule built_store_ok)
  then have f: "fitted (embeddings_model ?s)" "vocabulary_in_range (embeddings_model ?s)"
    using v by (simp_all add: store_ok_def)
  let ?n = "length (vocabulary (embeddings_model ?s))"
  have t: "transform (embeddings_model ?s) q = Inr (replicate ?n 0)"
    using transform_ok[OF f, of q] assms by auto
  have r: "ranked_similarities ?s (replicate ?n 0) = Inr [(0, 1), (0, 0)]"
    by (simp add: ranked_similarities_def v cosine_similarity_zero sort_reverse_tie upt_rec)
  have "list_all (\<lambda>p. snd p < length (metadata ?s)) (list_prefix [(0::real, 1::nat), (0, 0)] k)"
    by (auto simp: list_all_iff list_prefix_def two_chunk_store_facts(3) dest!: in_set_takeD)
  from make_results_ok[OF this] show ?thesis
    by (simp add: similarity_search_def v t r two_chunk_store_facts(3))
qed

lemma similarity_search_built:
  assumes "built self" "vectors self \<noteq> []"
  shows "\<exists>qv sims.
      transform (embeddings_model self) q = Inr qv \<and>
      ranked_similarities self qv = Inr sims \<and>
      length sims = length (vectors self) \<and>
      list_all (\<lambda>p. snd p < length (vectors self) \<and>
                   cosine_similarity qv (vectors self ! snd p) = Inr (fst p)) sims \<and>
      distinct (map snd sims) \<and>
      sorted_wrt (\<lambda>a b. fst a > fst b \<or> (fst a = fst b \<and> snd a > snd b)) sims \<and>
      similarity_search self q k =
        Inr (map (\<lambda>p. scored (metadata self ! snd p) (fst p)) (list_prefix sims k))"
proof -
  have ok: "store_ok self" using assms(1) by (rule built_store_ok)
  with assms(2) have f: "fitted (embeddings_model self)" "vocabulary_in_range (embeddings_model self)"
    and len: "length (metadata self) = length (vectors self)"
    by (simp_all add: store_ok_def)
  obtain qv where qv: "transform (embeddings_model self) q = Inr qv"
    using transform_ok[OF f] by blast
  obtain sims where sims: "ranked_similarities self qv = Inr sims"
      "length sims = length (vectors self)"
      "list_all (\<lambda>p. snd p < length (vectors self) \<and>
                   cosine_similarity qv (vectors self ! snd p) = Inr (fst p)) sims"
      "distinct (map snd sims)"
      "sorted_wrt (\<lambda>a b. fst a > fst b \<or> (fst a = fst b \<and> snd a > snd b)) sims"
    using ranked_similarities_ok by blast
  have "list_all (\<lambda>p. snd p < length (metadata self)) (list_prefix sims k)"
    using sims(3) len by (auto simp: list_all_iff list_prefix_def dest!: in_set_takeD)
  from make_results_ok[OF this] have
    "similarity_search self q k =
        Inr (map (\<lambda>p. scored (metadata self ! snd p) (fst p)) (list_prefix sims k))"
    using assms(2) qv sims(1) by (simp add: similarity_search_def)
  with qv sims show ?thesis by blast
qed

text \<open>
  C1, as the claim states it, fails on ties: the store built from \<open>chunk0\<close> and
  \<open>chunk1\<close> (rows 0 and 1) and a query without tokens give both chunks the similarity
  0, and the search returns row 1 before row 0.
\<close>

theorem similarity_search_tie_counterexample:
  "built two_chunk_store \<and> metadata two_chunk_store = [chunk0, chunk1] \<and>
   similarity_search two_chunk_store ''?'' 2 = Inr [scored chunk1 0, scored chunk0 0]"
proof -
  have t: "tokenize ''?'' = []" by code_simp
  show ?thesis
    using two_chunk_store_no_tokens[OF t, of 2] two_chunk_store_facts(2,3)
    by (simp add: list_prefix_def adjust_index_def)
qed

text \<open>
  C1, amended. On a non-empty store built by \<open>add_documents\<close> the search does not fail.
  The ranking holds every row exactly once, each with its cosine similarity to the
  query vector, in descending order of similarity; two rows of equal similarity come
  with the larger row number first. The result is the prefix \<open>[:k]\<close> of the ranking,
  each row as its chunk with the similarity added.
\<close>

theorem similarity_search_ranked:
  assumes "built self" "vectors self \<noteq> []"
  shows "\<exists>qv sims.
      transform (embeddings_model self) q = Inr qv \<and>
      ranked_similarities self qv = Inr sims \<and>
      length sims = length (vectors self) \<and>
      list_all (\<lambda>p. snd p < length (vectors self) \<and>
                   cosine_similarity qv (vectors self ! snd p) = Inr (fst p)) sims \<and>
      distinct (map snd sims) \<and>
      sorted_wrt (\<lambda>a b. fst a > fst b \<or> (fst a = fst b \<and> snd a > snd b)) sims \<and>
      similarity_search self q k =
        Inr (map (\<lambda>p. scored (metadata self ! snd p) (fst p)) (list_prefix sims k))"
  using assms by (rule similarity_search_built)

theorem similarity_search_ranked_witness:
  "built two_chunk_store \<and> vectors two_chunk_store \<noteq> [] \<and>
   (\<exists>qv sims.
      transform (embeddings_model two_chunk_store) ''alpha'' = Inr qv \<and>
      ranked_similarities two_chunk_store qv = Inr sims \<and>
      length sims = length (vectors two_chunk_store) \<and>
      distinct (map snd sims) \<and>
      sorted_wrt (\<lambda>a b. fst a > fst b \<or> (fst a = fst b \<and> snd a > snd b)) sims \<and>
      similarity_search two_chunk_store ''alpha'' 1 =
        Inr (map (\<lambda>p. scored (metadata two_chunk_store ! snd p) (fst p)) (list_prefix sims 1)))"
proof -
  have b: "built two_chunk_store" by (rule two_chunk_store_facts(2))
  have v: "vectors two_chunk_store \<noteq> []" using two_chunk_store_facts(4) by auto
  from similarity_search_ranked[OF b v, of "''alpha''" 1] b v show ?thesis by blast
qed

text \<open>
  C4, as the claim states it, fails for negative \<open>k\<close>: with two rows and \<open>k = -1\<close> the
  search returns one result, where the claim asks for none.
\<close>

theorem similarity_search_negative_k_counterexample:
  "built two_chunk_store \<and> similarity_search two_chunk_store ''?'' (- 1) = Inr [scored chunk1 0]"
proof -
  have t: "tokenize ''?'' = []" by code_simp
  show ?thesis
    using two_chunk_store_no_tokens[OF t, of "- 1"] two_chunk_store_facts(2)
    by (simp add: list_prefix_def adjust_index_def)
qed

text \<open>
  C4, amended. On a store built by \<open>add_documents\<close> the search never fails and returns
  at most as many results as there are rows; for \<open>k \<ge> 0\<close> it returns at most \<open>k\<close>
  results, none for \<open>k = 0\<close>; for \<open>k < 0\<close> it returns the ranking without its last
  \<open>-k\<close> rows, as the slice \<open>[:k]\<close> does; on an empty store it returns no result
  for every \<open>k\<close>.
\<close>

theorem similarity_search_length:
  assumes "built self"
  shows "\<exists>rs. similarity_search self q k = Inr rs \<and>
      length rs = adjust_index (length (vectors self)) k \<and>
      length rs \<le> length (vectors self) \<and>
      (0 \<le> k \<longrightarrow> length rs \<le> nat k) \<and>
      (k = 0 \<longrightarrow> rs = []) \<and>
      (k < 0 \<longrightarrow> length rs = length (vectors self) - nat (- k)) \<and>
      (vectors self = [] \<longrightarrow> rs = [])"
proof (cases "vectors self = []")
  case True
  then show ?thesis by (simp add: similarity_search_def adjust_index_def)
next
  case False
  from similarity_search_built[OF assms False, of q k]
  obtain sims where sims: "length sims = length (vectors self)"
      "similarity_search self q k =
        Inr (map (\<lambda>p. scored (metadata self ! snd p) (fst p)) (list_prefix sims k))"
    by blast
  let ?rs = "map (\<lambda>p. scored (metadata self ! snd p) (fst p)) (list_prefix sims k)"
  have l: "length ?rs = adjust_index (length (vectors self)) k"
    using sims(1) by (simp add: list_prefix_def adjust_index_def)
  have a: "length ?rs \<le> length (vectors self)" "0 \<le> k \<longrightarrow> length ?rs \<le> nat k"
    "k < 0 \<longrightarrow> length ?rs = length (vectors self) - nat (- k)"
    unfolding l by (auto simp: adjust_index_def)
  have "k = 0 \<longrightarrow> length ?rs = 0" unfolding l by (simp add: adjust_index_def)
  then have "k = 0 \<longrightarrow> ?rs = []" by blast
  with sims(2) l a False show ?thesis by simp
qed

theorem similarity_search_length_witness:
  "built two_chunk_store \<and> built VectorStore_init \<and>
   (\<exists>rs. similarity_search two_chunk_store ''alpha'' 1 = Inr rs \<and> length rs = 1) \<and>
   similarity_search two_chunk_store ''alpha'' 0 = Inr [] \<and>
   similarity_search VectorStore_init ''alpha'' 3 = Inr []"
proof -
  have b: "built two_chunk_store" by (rule two_chunk_store_facts(2))
  obtain v0 v1 where v: "vectors two_chunk_store = [v0, v1]"
    using two_chunk_store_facts(4) by blast
  have e: "vectors VectorStore_init = []" by (simp add: VectorStore_init_def)
  from similarity_search_length[OF b, of "''alpha''" 1]
    similarity_search_length[OF b, of "''alpha''" 0]
    similarity_search_length[OF built_init, of "''alpha''" 3] b built_init v e
  show ?thesis by (auto simp: adjust_index_def)
qed

lemma fit_vocabulary_length:
  "fit self documents = Inr model \<Longrightarrow>
   length (vocabulary model) = length (set_to_list (concat (map tokenize documents)))"
  by (auto simp: fit_def Let_def split: sum.splits)

lemma add_documents_vocabulary_length:
  "add_documents self documents = Inr self' \<Longrightarrow>
   length (vocabulary (embeddings_model self')) =
     length (set_to_list (concat (map tokenize (map doc_text documents))))"
  by (auto simp: add_documents_def fit_transform_def Let_def fit_vocabulary_length
      split: sum.splits prod.splits)

lemma add_documents_fresh_consistent:
  assumes "add_documents VectorStore_init documents = Inr self'"
  shows "list_all (\<lambda>v. length v = length (vocabulary (embeddings_model self'))) (vectors self')"
  using add_documents_ok[of VectorStore_init documents] assms
  by (auto simp: VectorStore_init_def)

text \<open>
  C5. The claim: after any sequence of \<open>add_documents\<close> calls every stored vector has
  the length of the store's vocabulary and comes from the store's current fit.
  \<open>add_documents\<close> fits the model anew on the added texts only and appends the new
  vectors to the old ones: after a first call with \<open>chunk0\<close> (one token) and a second
  with \<open>chunk2\<close> (two tokens) the store holds a vector of length 1 from the first fit
  next to a vector of length 2, and a vocabulary of size 2. (After a single call on a
  new store the lengths agree, see \<open>add_documents_fresh_consistent\<close>.)
\<close>

theorem add_documents_twice_mixes_fits:
  "\<exists>s1 s2. add_documents VectorStore_init [chunk0] = Inr s1 \<and>
           add_documents s1 [chunk2] = Inr s2 \<and>
           map length (vectors s2) = [1, 2] \<and>
           length (vocabulary (embeddings_model s2)) = 2"
proof -
  obtain s1 vs1 where s1: "add_documents VectorStore_init [chunk0] = Inr s1"
      "vectors s1 = vectors VectorStore_init @ vs1" "length vs1 = length [chunk0]"
      "list_all (\<lambda>v. length v = length (vocabulary (embeddings_model s1))) vs1"
    using add_documents_ok by blast
  obtain s2 vs2 where s2: "add_documents s1 [chunk2] = Inr s2"
      "vectors s2 = vectors s1 @ vs2" "length vs2 = length [chunk2]"
      "list_all (\<lambda>v. length v = length (vocabulary (embeddings_model s2))) vs2"
    using add_documents_ok by blast
  have t1: "length (set_to_list (concat (map tokenize (map doc_text [chunk0])))) = 1"
    by code_simp
  have t2: "length (set_to_list (concat (map tokenize (map doc_text [chunk2])))) = 2"
    by code_simp
  have n1: "length (vocabulary (embeddings_model s1)) = 1"
    using add_documents_vocabulary_length[OF s1(1)] t1 by simp
  have n2: "length (vocabulary (embeddings_model s2)) = 2"
    using add_documents_vocabulary_length[OF s2(1)] t2 by simp
  obtain v1 where v1: "vs1 = [v1]" using s1(3) by (cases vs1) auto
  obtain v2 where v2: "vs2 = [v2]" using s2(3) by (cases vs2) auto
  have m: "map length (vectors s2) = [1, 2]"
    using s1(2,4) s2(2,4) n1 n2 v1 v2 by (simp add: VectorStore_init_def)
  show ?thesis
    by (rule exI[of _ s1], rule exI[of _ s2]) (simp add: s1(1) s2(1) m n2)
qed

text \<open>
  C6. \<open>save\<close> writes the vectors, the chunk metadata, the vocabulary, the IDF table and
  the fitted flag; \<open>load\<close> of that file into any store gives a store with these five
  parts as saved, and so the same answer to every search.
\<close>

theorem save_load_round_trip:
  "\<exists>self'. load other filepath (save self filepath fs) = Inr self' \<and>
      vectors self' = vectors self \<and> metadata self' = metadata self \<and>
      vocabulary (embeddings_model self') = vocabulary (embeddings_model self) \<and>
      idf_scores (embeddings_model self') = idf_scores (embeddings_model self) \<and>
      fitted (embeddings_model self') = fitted (embeddings_model self) \<and>
      similarity_search self' q k = similarity_search self q k"
proof -
  have "load other filepath (save self filepath fs) = Inr self"
    by (simp add: load_def save_def)
  then show ?thesis by simp
qed

section \<open>Properties of the query entry point\<close>

lemma query_calls_llm:
  "initialized self \<Longrightarrow> similarity_search (vector_store self) q k = Inr found \<Longrightarrow>
   filter_documents found role = Inr chunks \<Longrightarrow> chunks \<noteq> [] \<Longrightarrow>
   snd (query self now calls q k role) = calls @ [(q, chunks)]"
  by (simp add: query_def Let_def split: sum.splits)

text \<open>
  C10. On a system that is not initialized \<open>query\<close> fails with a \<open>RuntimeError\<close>, which
  is no result at all. On an initialized system, when the role filter leaves no chunk
  of what the search found, \<open>query\<close> returns the "no accessible information" result with
  empty sources and leaves the call log of the answer generator as it was.
\<close>

theorem query_guards:
  "(\<not> initialized self \<longrightarrow>
      query self now calls q k role =
        (Inl (RuntimeError ''System not initialized. Call initialize() first.''), calls)) \<and>
   (initialized self \<longrightarrow> similarity_search (vector_store self) q k = Inr found \<longrightarrow>
      filter_documents found role = Inr [] \<longrightarrow>
      query self now calls q k role =
        (Inr \<lparr>query_text = q, response = no_access_message, sources = [], timestamp = now,
              context_chunks = 0, user_role = role, model_used = None,
              similarity_scores = None, filtered = None\<rparr>, calls))"
  by (simp add: query_def)

theorem query_guards_witness:
  "query \<lparr>vector_store = two_chunk_store, llm_manager = stub_llm, initialized = False\<rparr>
      ''now'' [] ''?'' 2 ''public'' =
     (Inl (RuntimeError ''System not initialized. Call initialize() first.''), []) \<and>
   similarity_search two_chunk_store ''?'' 2 = Inr [scored chunk1 0, scored chunk0 0] \<and>
   filter_documents [scored chunk1 0, scored chunk0 0] ''public'' = Inr [] \<and>
   query \<lparr>vector_store = two_chunk_store, llm_manager = stub_llm, initialized = True\<rparr>
      ''now'' [] ''?'' 2 ''public'' =
     (Inr \<lparr>query_text = ''?'', response = no_access_message, sources = [], timestamp = ''now'',
           context_chunks = 0, user_role = ''public'', model_used = None,
           similarity_scores = None, filtered = None\<rparr>, [])"
proof -
  have t: "tokenize ''?'' = []" by code_simp
  have s: "similarity_search two_chunk_store ''?'' 2 = Inr [scored chunk1 0, scored chunk0 0]"
    using two_chunk_store_no_tokens[OF t, of 2] by (simp add: list_prefix_def adjust_index_def)
  have f: "filter_documents [scored chunk1 0, scored chunk0 0] ''public'' = Inr []"
    by (simp add: filter_documents_def effective_role_def role_permissions_def allowed_roles_def
        dict_get_def document_restrictions_def scored_def chunk0_def chunk1_def)
  show ?thesis
    using s f
      query_guards[of "\<lparr>vector_store = two_chunk_store, llm_manager = stub_llm, initialized = False\<rparr>"
        "''now''" "[]" "''?''" 2 "''public''"]
      query_guards[of "\<lparr>vector_store = two_chunk_store, llm_manager = stub_llm, initialized = True\<rparr>"
        "''now''" "[]" "''?''" 2 "''public''" "[scored chunk1 0, scored chunk0 0]"]
    by simp
qed

end
